theory Spec2Isabelle
  imports Main "HOL-Library.AList" "HOL-Library.Product_Lexorder"
begin

section \<open>Data model\<close>

text \<open>
  A slot of the grid (\<open>Variable\<close> of the crossword module): its starting cell, its
  orientation and its length. The engine in \<open>generate.py\<close> only reads the length.
\<close>

datatype direction = ACROSS | DOWN

record variable =
  var_i :: int
  var_j :: int
  var_direction :: direction
  var_length :: int

text \<open>
  The puzzle description (\<open>Crossword\<close>), as far as the engine reads it: the slots, the
  vocabulary and the overlap table. The table is a dictionary keyed by ordered pairs of
  slots whose value is \<open>None\<close> or a pair of offsets; sets and dictionaries are lists in
  their iteration order, read with \<open>map_of\<close>.
\<close>

record crossword =
  variables :: "variable list"
  words :: "string list"
  overlaps :: "((variable \<times> variable) \<times> (int \<times> int) option) list"

type_synonym domains = "(variable \<times> string list) list"

type_synonym assignment = "(variable \<times> string) list"

datatype error = KeyError | IndexError

text \<open>\<open>s[k]\<close> on a string: negative indices count from the end, anything else raises.\<close>

definition str_index :: "string \<Rightarrow> int \<Rightarrow> error + char" where
  "str_index s k =
     (let n = int (length s); m = (if k < 0 then n + k else k)
      in if 0 \<le> m \<and> m < n then Inr (s ! nat m) else Inl IndexError)"

text \<open>\<open>self.domains[v]\<close>, raising on a missing key.\<close>

definition domain_of :: "domains \<Rightarrow> variable \<Rightarrow> error + string list" where
  "domain_of d v = (case map_of d v of None \<Rightarrow> Inl KeyError | Some ws \<Rightarrow> Inr ws)"

text \<open>The same read where the key is known to be present (it comes from the dictionary).\<close>

definition dom_list :: "domains \<Rightarrow> variable \<Rightarrow> string list" where
  "dom_list d v = (case map_of d v of None \<Rightarrow> [] | Some ws \<Rightarrow> ws)"

definition has_key :: "('k \<times> 'v) list \<Rightarrow> 'k \<Rightarrow> bool" where
  "has_key al k = (map_of al k \<noteq> None)"

text \<open>
  Modelled from the spec: \<open>Crossword.neighbors\<close> lives in the crossword module, which is
  not part of the sources. The neighbours of a slot are the slots of the puzzle, other
  than the slot itself, that have a defined overlap with it; the result is a set.
\<close>

definition neighbors :: "crossword \<Rightarrow> variable \<Rightarrow> variable list" where
  "neighbors c var =
     remdups [v \<leftarrow> variables c. v \<noteq> var \<and>
        (case map_of (overlaps c) (v, var) of Some (Some p) \<Rightarrow> True | _ \<Rightarrow> False)]"

section \<open>The constructor\<close>

definition init_domains :: "crossword \<Rightarrow> domains" where
  "init_domains c = map (\<lambda>var. (var, words c)) (variables c)"

section \<open>Node consistency\<close>

text \<open>The body of the loop: \<open>var\<close>'s entry is replaced by the list of the values that fit.\<close>

definition node_step :: "variable \<Rightarrow> domains \<Rightarrow> domains" where
  "node_step var d =
     AList.update var [val \<leftarrow> dom_list d var. int (length val) = var_length var] d"

definition enforce_node_consistency :: "domains \<Rightarrow> domains" where
  "enforce_node_consistency d = fold node_step (map fst d) d"

section \<open>The revision step\<close>

text \<open>\<open>any(val_x[overlap_x] == val_y[overlap_y] for val_y in y_domain)\<close>\<close>

fun has_corresponding_value :: "int \<Rightarrow> int \<Rightarrow> string \<Rightarrow> string list \<Rightarrow> error + bool" where
  "has_corresponding_value overlap_x overlap_y val_x [] = Inr False"
| "has_corresponding_value overlap_x overlap_y val_x (val_y # y_domain) =
     (case str_index val_x overlap_x of
        Inl e \<Rightarrow> Inl e
      | Inr cx \<Rightarrow>
          (case str_index val_y overlap_y of
             Inl e \<Rightarrow> Inl e
           | Inr cy \<Rightarrow>
               if cx = cy then Inr True
               else has_corresponding_value overlap_x overlap_y val_x y_domain))"

text \<open>
  The loop over the copy of \<open>x\<close>'s domain. \<open>x_domain\<close> and \<open>y_domain\<close> are the list
  objects stored in the dictionary, so both are read from the current store in every
  iteration, and the removal writes \<open>x\<close>'s entry.
\<close>

fun revise_loop ::
  "int \<Rightarrow> int \<Rightarrow> variable \<Rightarrow> variable \<Rightarrow> string list \<Rightarrow> bool \<Rightarrow> domains
     \<Rightarrow> error + (bool \<times> domains)" where
  "revise_loop overlap_x overlap_y x y [] revised d = Inr (revised, d)"
| "revise_loop overlap_x overlap_y x y (val_x # rest) revised d =
     (case has_corresponding_value overlap_x overlap_y val_x (dom_list d y) of
        Inl e \<Rightarrow> Inl e
      | Inr True \<Rightarrow> revise_loop overlap_x overlap_y x y rest revised d
      | Inr False \<Rightarrow>
          revise_loop overlap_x overlap_y x y rest True
            (AList.update x (remove1 val_x (dom_list d x)) d))"

definition revise :: "crossword \<Rightarrow> variable \<Rightarrow> variable \<Rightarrow> domains \<Rightarrow> error + (bool \<times> domains)" where
  "revise c x y d =
     (case map_of (overlaps c) (x, y) of
        None \<Rightarrow> Inl KeyError
      | Some None \<Rightarrow> Inr (False, d)
      | Some (Some (overlap_x, overlap_y)) \<Rightarrow>
          (case domain_of d x of
             Inl e \<Rightarrow> Inl e
           | Inr x_domain \<Rightarrow>
               (case domain_of d y of
                  Inl e \<Rightarrow> Inl e
                | Inr y_domain \<Rightarrow> revise_loop overlap_x overlap_y x y x_domain False d)))"

section \<open>AC-3\<close>

definition total_words :: "domains \<Rightarrow> nat" where
  "total_words d = sum_list (map (\<lambda>p. length (snd p)) d)"

function ac3_loop ::
  "crossword \<Rightarrow> (variable \<times> variable) list \<Rightarrow> domains \<Rightarrow> error + (bool \<times> domains)" where
  "ac3_loop c queue d =
     (if queue = [] then Inr (True, d)
      else
        (case last queue of (x, y) \<Rightarrow>
           (case revise c x y d of
              Inl e \<Rightarrow> Inl e
            | Inr (revised, d') \<Rightarrow>
                if revised then
                  (case domain_of d' x of
                     Inl e \<Rightarrow> Inl e
                   | Inr x_domain \<Rightarrow>
                       if x_domain = [] then Inr (False, d')
                       else ac3_loop c
                              (butlast queue @ map (\<lambda>z. (z, x)) (removeAll y (neighbors c x)))
                              d')
                else ac3_loop c (butlast queue) d')))"
  by pat_completeness auto

text \<open>
  \<open>ac3(arcs)\<close>: the work list is a Python list, popped and appended at its end;
  \<open>None\<close> stands for the default, the keys of the overlap table.
\<close>

definition ac3 ::
  "crossword \<Rightarrow> (variable \<times> variable) list option \<Rightarrow> domains \<Rightarrow> error + (bool \<times> domains)" where
  "ac3 c arcs d =
     ac3_loop c (case arcs of None \<Rightarrow> map fst (overlaps c) | Some queue \<Rightarrow> queue) d"

text \<open>
  The same loop with a bound on the number of iterations: \<open>None\<close> when the bound is
  reached before the loop is over.
\<close>

fun ac3_fuel ::
  "nat \<Rightarrow> crossword \<Rightarrow> (variable \<times> variable) list \<Rightarrow> domains
     \<Rightarrow> (error + (bool \<times> domains)) option" where
  "ac3_fuel 0 c queue d = None"
| "ac3_fuel (Suc n) c queue d =
     (if queue = [] then Some (Inr (True, d))
      else
        (case last queue of (x, y) \<Rightarrow>
           (case revise c x y d of
              Inl e \<Rightarrow> Some (Inl e)
            | Inr (revised, d') \<Rightarrow>
                if revised then
                  (case domain_of d' x of
                     Inl e \<Rightarrow> Some (Inl e)
                   | Inr x_domain \<Rightarrow>
                       if x_domain = [] then Some (Inr (False, d'))
                       else ac3_fuel n c
                              (butlast queue @ map (\<lambda>z. (z, x)) (removeAll y (neighbors c x)))
                              d')
                else ac3_fuel n c (butlast queue) d')))"

section \<open>Assignments\<close>

definition assignment_complete :: "domains \<Rightarrow> assignment \<Rightarrow> bool" where
  "assignment_complete d a = list_all (\<lambda>variable. has_key a variable) (map fst d)"

text \<open>The first loop of \<open>consistent\<close>: lengths and reuse of a word.\<close>

fun consistent_values :: "assignment \<Rightarrow> variable list \<Rightarrow> string set \<Rightarrow> error + bool" where
  "consistent_values a [] assigned_values = Inr True"
| "consistent_values a (var # vars) assigned_values =
     (case map_of a var of
        None \<Rightarrow> Inl KeyError
      | Some w \<Rightarrow>
          if var_length var \<noteq> int (length w) \<or> w \<in> assigned_values then Inr False
          else consistent_values a vars (insert w assigned_values))"

text \<open>The second loop: the overlapping pairs that are both assigned.\<close>

fun consistent_overlaps ::
  "crossword \<Rightarrow> assignment \<Rightarrow> (variable \<times> variable) list \<Rightarrow> error + bool" where
  "consistent_overlaps c a [] = Inr True"
| "consistent_overlaps c a ((var1, var2) # ks) =
     (if has_key a var1 \<and> has_key a var2 then
        (case map_of (overlaps c) (var1, var2) of
           None \<Rightarrow> Inl KeyError
         | Some None \<Rightarrow> consistent_overlaps c a ks
         | Some (Some (overlap_x, overlap_y)) \<Rightarrow>
             (case map_of a var1 of
                None \<Rightarrow> Inl KeyError
              | Some w1 \<Rightarrow>
                  (case str_index w1 overlap_x of
                     Inl e \<Rightarrow> Inl e
                   | Inr c1 \<Rightarrow>
                       (case map_of a var2 of
                          None \<Rightarrow> Inl KeyError
                        | Some w2 \<Rightarrow>
                            (case str_index w2 overlap_y of
                               Inl e \<Rightarrow> Inl e
                             | Inr c2 \<Rightarrow>
                                 if c1 \<noteq> c2 then Inr False
                                 else consistent_overlaps c a ks)))))
      else consistent_overlaps c a ks)"

definition consistent :: "crossword \<Rightarrow> assignment \<Rightarrow> error + bool" where
  "consistent c a =
     (case consistent_values a (map fst a) {} of
        Inl e \<Rightarrow> Inl e
      | Inr False \<Rightarrow> Inr False
      | Inr True \<Rightarrow> consistent_overlaps c a (map fst (overlaps c)))"

section \<open>Heuristics\<close>

text \<open>\<open>sum(1 for val in self.domains[neighbor] if val[index_neighbor] != value[index_var])\<close>\<close>

fun count_mismatches :: "int \<Rightarrow> int \<Rightarrow> string \<Rightarrow> string list \<Rightarrow> error + int" where
  "count_mismatches index_var index_neighbor val0 [] = Inr 0"
| "count_mismatches index_var index_neighbor val0 (val # vals) =
     (case str_index val index_neighbor of
        Inl e \<Rightarrow> Inl e
      | Inr cn \<Rightarrow>
          (case str_index val0 index_var of
             Inl e \<Rightarrow> Inl e
           | Inr cv \<Rightarrow>
               (case count_mismatches index_var index_neighbor val0 vals of
                  Inl e \<Rightarrow> Inl e
                | Inr n \<Rightarrow> Inr ((if cn \<noteq> cv then 1 else 0) + n))))"

text \<open>
  The loop of \<open>count_eliminated_values\<close> over the unassigned neighbours, with the
  running total. The overlap is read for the enclosing \<open>var\<close>.
\<close>

fun count_eliminated_loop ::
  "crossword \<Rightarrow> domains \<Rightarrow> variable \<Rightarrow> string \<Rightarrow> variable list \<Rightarrow> int \<Rightarrow> error + int" where
  "count_eliminated_loop c d var val0 [] eliminated = Inr eliminated"
| "count_eliminated_loop c d var val0 (neighbor # ns) eliminated =
     (case map_of (overlaps c) (var, neighbor) of
        None \<Rightarrow> Inl KeyError
      | Some None \<Rightarrow> count_eliminated_loop c d var val0 ns eliminated
      | Some (Some (index_var, index_neighbor)) \<Rightarrow>
          (case domain_of d neighbor of
             Inl e \<Rightarrow> Inl e
           | Inr n_domain \<Rightarrow>
               (case count_mismatches index_var index_neighbor val0 n_domain of
                  Inl e \<Rightarrow> Inl e
                | Inr k \<Rightarrow> count_eliminated_loop c d var val0 ns (eliminated + k))))"

definition count_eliminated_values ::
  "crossword \<Rightarrow> domains \<Rightarrow> assignment \<Rightarrow> variable \<Rightarrow> string \<Rightarrow> variable \<Rightarrow> error + int" where
  "count_eliminated_values c d a var val0 variable =
     count_eliminated_loop c d var val0
       [n \<leftarrow> neighbors c variable. \<not> has_key a n] 0"

text \<open>The keys of a sort are computed for every element, in list order, before sorting.\<close>

fun sort_keys :: "('a \<Rightarrow> error + int) \<Rightarrow> 'a list \<Rightarrow> error + (int \<times> 'a) list" where
  "sort_keys f [] = Inr []"
| "sort_keys f (x # xs) =
     (case f x of
        Inl e \<Rightarrow> Inl e
      | Inr k \<Rightarrow> (case sort_keys f xs of Inl e \<Rightarrow> Inl e | Inr ks \<Rightarrow> Inr ((k, x) # ks)))"

definition order_domain_values ::
  "crossword \<Rightarrow> domains \<Rightarrow> variable \<Rightarrow> assignment \<Rightarrow> error + string list" where
  "order_domain_values c d var a =
     (case domain_of d var of
        Inl e \<Rightarrow> Inl e
      | Inr domain \<Rightarrow>
          (case sort_keys (\<lambda>val0. count_eliminated_values c d a var val0 var) domain of
             Inl e \<Rightarrow> Inl e
           | Inr keyed \<Rightarrow> Inr (map snd (sort_key fst keyed))))"

text \<open>\<open>[var for var in self.domains if var not in assignment]\<close>\<close>

definition unassigned :: "domains \<Rightarrow> assignment \<Rightarrow> variable list" where
  "unassigned d a = [var \<leftarrow> map fst d. \<not> has_key a var]"

definition select_unassigned_variable ::
  "crossword \<Rightarrow> domains \<Rightarrow> assignment \<Rightarrow> error + variable" where
  "select_unassigned_variable c d a =
     (let unassigned_variables = unassigned d a;
          key_function = (\<lambda>variable.
             (int (length (dom_list d variable)), - int (length (neighbors c variable))))
      in case sort_key key_function unassigned_variables of
           [] \<Rightarrow> Inl IndexError
         | v # _ \<Rightarrow> Inr v)"

section \<open>Backtracking search\<close>

text \<open>
  The \<open>for value in ...\<close> loop of \<open>backtrack\<close>: the body yields an error, a result
  that ends the loop, or nothing, in which case the next value is tried.
\<close>

fun first_result :: "('a \<Rightarrow> error + 'b option) \<Rightarrow> 'a list \<Rightarrow> error + 'b option" where
  "first_result body [] = Inr None"
| "first_result body (x # xs) =
     (case body x of
        Inl e \<Rightarrow> Inl e
      | Inr (Some r) \<Rightarrow> Inr (Some r)
      | Inr None \<Rightarrow> first_result body xs)"

lemma first_result_cong [fundef_cong]:
  "xs = ys \<Longrightarrow> (\<And>x. x \<in> set ys \<Longrightarrow> f x = g x) \<Longrightarrow> first_result f xs = first_result g ys"
  by (induction ys arbitrary: xs) (auto split: sum.splits option.splits)

text \<open>
  \<open>backtrack\<close> on values: the assignment is the dictionary's content, and the copy
  extended by one binding is \<open>AList.update var val a\<close>. The Domain Store is only
  read. The model with assignment objects passed by reference follows in the next
  section.
\<close>

function backtrack :: "crossword \<Rightarrow> domains \<Rightarrow> assignment \<Rightarrow> error + assignment option" where
  "backtrack c d a =
     (if assignment_complete d a then Inr (Some a)
      else
        (case select_unassigned_variable c d a of
           Inl e \<Rightarrow> Inl e
         | Inr var \<Rightarrow>
             (case order_domain_values c d var a of
                Inl e \<Rightarrow> Inl e
              | Inr vals \<Rightarrow>
                  first_result
                    (\<lambda>val.
                       (case consistent c (AList.update var val a) of
                          Inl e \<Rightarrow> Inl e
                        | Inr False \<Rightarrow> Inr None
                        | Inr True \<Rightarrow> backtrack c d (AList.update var val a)))
                    vals)))"
  by pat_completeness auto

text \<open>\<open>solve\<close>: the result of \<open>ac3\<close> is not looked at.\<close>

definition solve :: "crossword \<Rightarrow> error + assignment option" where
  "solve c =
     (let d1 = enforce_node_consistency (init_domains c)
      in case ac3 c None d1 of
           Inl e \<Rightarrow> Inl e
         | Inr (ok, d2) \<Rightarrow> backtrack c d2 [])"

section \<open>The search with an explicit store\<close>

text \<open>
  The search with its store made explicit. The store holds the Domain Store
  (\<open>self.domains\<close>) and the dictionary objects of the assignments; an assignment is
  passed by reference, an index into the list of objects. \<open>assignment.copy()\<close>
  allocates a new object with the bindings of the old one, and
  \<open>new_assignment[var] = value\<close> writes to that object. Nothing else in
  \<open>backtrack\<close> writes: \<open>assignment_complete\<close>, \<open>consistent\<close> and the two heuristics
  only read the store (\<open>order_domain_values\<close> sorts the copy \<open>list(self.domains[var])\<close>,
  \<open>select_unassigned_variable\<close> a list it builds, \<open>consistent\<close> fills a local set),
  so they are applied to what is read and the store is passed on. The first argument
  bounds the depth of the recursion: \<open>None\<close> when it is reached.
\<close>

record store =
  st_domains :: domains
  st_heap :: "assignment list"

fun backtrack_st ::
    "nat \<Rightarrow> crossword \<Rightarrow> nat \<Rightarrow> store \<Rightarrow> (error + (nat option \<times> store)) option"
  and backtrack_values ::
    "nat \<Rightarrow> crossword \<Rightarrow> nat \<Rightarrow> variable \<Rightarrow> string list \<Rightarrow> store
       \<Rightarrow> (error + (nat option \<times> store)) option" where
  "backtrack_st 0 c ref s = None"
| "backtrack_st (Suc n) c ref s =
     (if assignment_complete (st_domains s) (st_heap s ! ref) then Some (Inr (Some ref, s))
      else
        (case select_unassigned_variable c (st_domains s) (st_heap s ! ref) of
           Inl e \<Rightarrow> Some (Inl e)
         | Inr var \<Rightarrow>
             (case order_domain_values c (st_domains s) var (st_heap s ! ref) of
                Inl e \<Rightarrow> Some (Inl e)
              | Inr vals \<Rightarrow> backtrack_values n c ref var vals s)))"
| "backtrack_values n c ref var [] s = Some (Inr (None, s))"
| "backtrack_values n c ref var (val # rest) s =
     (let new_ref = length (st_heap s);
          s1 = s\<lparr>st_heap := st_heap s @ [st_heap s ! ref]\<rparr>;
          s2 = s1\<lparr>st_heap := (st_heap s1)[new_ref := AList.update var val (st_heap s1 ! new_ref)]\<rparr>
      in case consistent c (st_heap s2 ! new_ref) of
           Inl e \<Rightarrow> Some (Inl e)
         | Inr False \<Rightarrow> backtrack_values n c ref var rest s2
         | Inr True \<Rightarrow>
             (case backtrack_st n c new_ref s2 of
                None \<Rightarrow> None
              | Some (Inl e) \<Rightarrow> Some (Inl e)
              | Some (Inr (Some r, s3)) \<Rightarrow> Some (Inr (Some r, s3))
              | Some (Inr (None, s3)) \<Rightarrow> backtrack_values n c ref var rest s3))"

text \<open>
  The later store has the Domain Store of the earlier one, and every object of the
  earlier one with the bindings it had.
\<close>

definition extends_store :: "store \<Rightarrow> store \<Rightarrow> bool" where
  "extends_store s s' \<longleftrightarrow>
     st_domains s' = st_domains s \<and> take (length (st_heap s)) (st_heap s') = st_heap s"

text \<open>How the result of the search with a store relates to the result of the search on values.\<close>

definition same_result ::
  "store \<Rightarrow> (error + assignment option) \<Rightarrow> (error + (nat option \<times> store)) option \<Rightarrow> bool" where
  "same_result s pure out \<longleftrightarrow>
     (case pure of
        Inl e \<Rightarrow> out = Some (Inl e)
      | Inr res \<Rightarrow>
          (\<exists>res' s'. out = Some (Inr (res', s')) \<and> extends_store s s' \<and>
             (case res' of
                None \<Rightarrow> res = None
              | Some r \<Rightarrow> r < length (st_heap s') \<and> res = Some (st_heap s' ! r))))"

section \<open>Small puzzles\<close>

text \<open>
  A horizontal slot of length 3 in the first row; a vertical slot that shares its first
  cell; a vertical slot whose first cell is its second cell; a horizontal slot two rows
  below, which shares no cell with it.
\<close>

definition slot_h :: variable where
  "slot_h = \<lparr>var_i = 0, var_j = 0, var_direction = ACROSS, var_length = 3\<rparr>"

definition slot_v :: variable where
  "slot_v = \<lparr>var_i = 0, var_j = 0, var_direction = DOWN, var_length = 3\<rparr>"

definition slot_v1 :: variable where
  "slot_v1 = \<lparr>var_i = 0, var_j = 1, var_direction = DOWN, var_length = 3\<rparr>"

definition slot_h2 :: variable where
  "slot_h2 = \<lparr>var_i = 2, var_j = 0, var_direction = ACROSS, var_length = 3\<rparr>"

text \<open>The single slot with the vocabulary of the end-to-end example.\<close>

definition puzzle_single :: crossword where
  "puzzle_single = \<lparr>variables = [slot_h], words = [''CAT'', ''DOG'', ''OX''], overlaps = []\<rparr>"

text \<open>The two crossing slots, with a vocabulary that has a solution.\<close>

definition puzzle_cross :: crossword where
  "puzzle_cross =
     \<lparr>variables = [slot_h, slot_v], words = [''CAT'', ''DOG'', ''COW''],
      overlaps = [((slot_h, slot_v), Some (0, 0)), ((slot_v, slot_h), Some (0, 0))]\<rparr>"

text \<open>The crossing slots with two words: they differ at the shared cell.\<close>

definition puzzle_pair :: crossword where
  "puzzle_pair =
     \<lparr>variables = [slot_h, slot_v], words = [''CAT'', ''DOG''],
      overlaps = [((slot_h, slot_v), Some (0, 0)), ((slot_v, slot_h), Some (0, 0))]\<rparr>"

text \<open>The crossing slots with a vocabulary that has no word of their length.\<close>

definition puzzle_short :: crossword where
  "puzzle_short =
     \<lparr>variables = [slot_h, slot_v], words = [''OX''],
      overlaps = [((slot_h, slot_v), Some (0, 0)), ((slot_v, slot_h), Some (0, 0))]\<rparr>"

text \<open>The two slots that share no cell.\<close>

definition puzzle_apart :: crossword where
  "puzzle_apart =
     \<lparr>variables = [slot_h, slot_h2], words = [''CAT'', ''DOG''],
      overlaps = [((slot_h, slot_h2), None), ((slot_h2, slot_h), None)]\<rparr>"

text \<open>The slot crossed at its second cell, with a vocabulary of one short word.\<close>

definition puzzle_offset :: crossword where
  "puzzle_offset =
     \<lparr>variables = [slot_h, slot_v1], words = [''A''],
      overlaps = [((slot_h, slot_v1), Some (1, 0)), ((slot_v1, slot_h), Some (0, 1))]\<rparr>"

section \<open>Predicates of the specification\<close>

text \<open>
  \<open>w[i] == w'[j]\<close>, where both characters exist; a word of \<open>x\<close>'s domain is supported
  when some word of \<open>y\<close>'s domain agrees with it at the offsets; a word is indexable at
  an offset when reading it there does not raise.
\<close>

definition agree_at :: "int \<Rightarrow> int \<Rightarrow> string \<Rightarrow> string \<Rightarrow> bool" where
  "agree_at i j w w' =
     (case str_index w i of
        Inl e \<Rightarrow> False
      | Inr a \<Rightarrow> (case str_index w' j of Inl e \<Rightarrow> False | Inr b \<Rightarrow> a = b))"

definition supported :: "int \<Rightarrow> int \<Rightarrow> string list \<Rightarrow> string \<Rightarrow> bool" where
  "supported i j ys w = list_ex (agree_at i j w) ys"

definition indexable :: "string \<Rightarrow> int \<Rightarrow> bool" where
  "indexable w k = (case str_index w k of Inl e \<Rightarrow> False | Inr ch \<Rightarrow> True)"

text \<open>
  The overlap table of a puzzle built from a grid: a slot does not overlap itself, the
  slots of a defined overlap are slots of the puzzle, and the two directions of an
  overlap carry the same offsets, swapped.
\<close>

definition overlaps_well_formed :: "crossword \<Rightarrow> bool" where
  "overlaps_well_formed c =
     list_all (\<lambda>(x, y).
        (case map_of (overlaps c) (x, y) of
           Some (Some (i, j)) \<Rightarrow>
             x \<noteq> y \<and> x \<in> set (variables c) \<and> y \<in> set (variables c) \<and>
             map_of (overlaps c) (y, x) = Some (Some (j, i))
         | _ \<Rightarrow> True))
       (map fst (overlaps c))"

text \<open>The offsets of the overlap table lie inside the two slots.\<close>

definition offsets_in_range :: "crossword \<Rightarrow> bool" where
  "offsets_in_range c =
     list_all (\<lambda>(x, y).
        (case map_of (overlaps c) (x, y) of
           Some (Some (i, j)) \<Rightarrow> 0 \<le> i \<and> i < var_length x \<and> 0 \<le> j \<and> j < var_length y
         | _ \<Rightarrow> True))
       (map fst (overlaps c))"

text \<open>Every word of every domain has the length of its slot.\<close>

definition lengths_ok :: "domains \<Rightarrow> bool" where
  "lengths_ok d =
     list_all (\<lambda>v. list_all (\<lambda>w. int (length w) = var_length v) (dom_list d v)) (map fst d)"

text \<open>The three ways in which an assignment breaks a constraint.\<close>

definition word_reused :: "assignment \<Rightarrow> bool" where
  "word_reused a = list_ex (\<lambda>(v1, w1). list_ex (\<lambda>(v2, w2). v1 \<noteq> v2 \<and> w1 = w2) a) a"

definition length_mismatch :: "assignment \<Rightarrow> bool" where
  "length_mismatch a = list_ex (\<lambda>(v, w). int (length w) \<noteq> var_length v) a"

definition overlap_conflict :: "crossword \<Rightarrow> assignment \<Rightarrow> bool" where
  "overlap_conflict c a =
     list_ex (\<lambda>(v1, v2).
        (case map_of (overlaps c) (v1, v2) of
           Some (Some (i, j)) \<Rightarrow>
             (case map_of a v1 of
                None \<Rightarrow> False
              | Some w1 \<Rightarrow>
                  (case map_of a v2 of None \<Rightarrow> False | Some w2 \<Rightarrow> \<not> agree_at i j w1 w2))
         | _ \<Rightarrow> False))
       (map fst (overlaps c))"

text \<open>
  A solution of the puzzle: a dictionary that gives every slot, and nothing else, a word
  of the vocabulary and breaks none of the three constraints.
\<close>

definition is_solution :: "crossword \<Rightarrow> assignment \<Rightarrow> bool" where
  "is_solution c r =
     (distinct (map fst r) \<and> set (map fst r) = set (variables c) \<and>
      list_all (\<lambda>(v, w). w \<in> set (words c)) r \<and>
      \<not> word_reused r \<and> \<not> length_mismatch r \<and> \<not> overlap_conflict c r)"

text \<open>
  Every word of \<open>x\<close>'s domain has a supporting word in \<open>y\<close>'s domain; and the same
  for every ordered pair with a defined overlap.
\<close>

definition arc_ok :: "domains \<Rightarrow> variable \<Rightarrow> variable \<Rightarrow> int \<Rightarrow> int \<Rightarrow> bool" where
  "arc_ok d x y i j = list_all (supported i j (dom_list d y)) (dom_list d x)"

definition arc_consistent :: "crossword \<Rightarrow> domains \<Rightarrow> bool" where
  "arc_consistent c d =
     list_all (\<lambda>(x, y).
        (case map_of (overlaps c) (x, y) of
           Some (Some (i, j)) \<Rightarrow> arc_ok d x y i j
         | _ \<Rightarrow> True))
       (map fst (overlaps c))"

text \<open>The pairs that the loop of \<open>ac3\<close> appends after a revision of \<open>(x, y)\<close>.\<close>

definition enqueued :: "crossword \<Rightarrow> variable \<Rightarrow> variable \<Rightarrow> (variable \<times> variable) list" where
  "enqueued c x y = map (\<lambda>z. (z, x)) (removeAll y (neighbors c x))"

text \<open>The assignment gives every slot of the puzzle a word of the slot's domain.\<close>

definition kept_by :: "crossword \<Rightarrow> assignment \<Rightarrow> domains \<Rightarrow> bool" where
  "kept_by c r d \<longleftrightarrow> (\<forall>v \<in> set (variables c). \<exists>w. map_of r v = Some w \<and> w \<in> set (dom_list d v))"

text \<open>
  An assignment \<open>r\<close> completes \<open>a\<close> over the store: it is a dictionary that agrees
  with \<open>a\<close> where \<open>a\<close> is defined, assigns every slot of the store, and takes the
  words of the slots that \<open>a\<close> leaves open from their domains.
\<close>

definition completes :: "domains \<Rightarrow> assignment \<Rightarrow> assignment \<Rightarrow> bool" where
  "completes d a r \<longleftrightarrow>
     distinct (map fst r) \<and> map_of a \<subseteq>\<^sub>m map_of r \<and> assignment_complete d r \<and>
     (\<forall>v w. map_of r v = Some w \<longrightarrow> \<not> has_key a v \<longrightarrow> w \<in> set (dom_list d v))"

section \<open>Termination of the two loops\<close>

lemma total_words_update:
  "map_of d x = Some ws \<Longrightarrow> total_words (AList.update x ws' d) + length ws = total_words d + length ws'"
  by (induction d) (auto simp: total_words_def)

lemma has_key_update: "has_key (AList.update k v al) k' = (k' = k \<or> has_key al k')"
  by (simp add: has_key_def update_conv')

lemma dom_list_update: "dom_list (AList.update k v d) k' = (if k' = k then v else dom_list d k')"
  by (simp add: dom_list_def update_conv')

lemma has_key_dom_list: "has_key d x \<Longrightarrow> map_of d x = Some (dom_list d x)"
  by (auto simp: has_key_def dom_list_def)

lemma revise_loop_total_le:
  "revise_loop ox oy x y vs r d = Inr (b, d') \<Longrightarrow> has_key (d::domains) x \<Longrightarrow> total_words d' \<le> total_words d"
proof (induction vs arbitrary: r d)
  case Nil
  then show ?case by simp
next
  case (Cons v vs)
  show ?case
  proof (cases "has_corresponding_value ox oy v (dom_list d y)")
    case (Inl e)
    with Cons.prems show ?thesis by simp
  next
    case (Inr s)
    show ?thesis
    proof (cases s)
      case True
      with Inr Cons show ?thesis by simp
    next
      case False
      let ?d1 = "AList.update x (remove1 v (dom_list d x)) d"
      from False Inr Cons.prems have "revise_loop ox oy x y vs True ?d1 = Inr (b, d')" by simp
      moreover have "has_key ?d1 x" by (simp add: has_key_update)
      ultimately have "total_words d' \<le> total_words ?d1" by (rule Cons.IH)
      moreover have "total_words ?d1 + length (dom_list d x) = total_words d + length (remove1 v (dom_list d x))"
        using Cons.prems(2) by (intro total_words_update has_key_dom_list)
      moreover have "length (remove1 v (dom_list d x)) \<le> length (dom_list d x)"
        by (simp add: length_remove1)
      ultimately show ?thesis by linarith
    qed
  qed
qed

lemma revise_loop_total_less:
  "revise_loop ox oy x y vs False d = Inr (True, d') \<Longrightarrow> has_key (d::domains) x \<Longrightarrow>
   set vs \<subseteq> set (dom_list d x) \<Longrightarrow> total_words d' < total_words d"
proof (induction vs)
  case Nil
  then show ?case by simp
next
  case (Cons v vs)
  show ?case
  proof (cases "has_corresponding_value ox oy v (dom_list d y)")
    case (Inl e)
    with Cons.prems show ?thesis by simp
  next
    case (Inr s)
    show ?thesis
    proof (cases s)
      case True
      with Inr Cons show ?thesis by simp
    next
      case False
      let ?d1 = "AList.update x (remove1 v (dom_list d x)) d"
      from False Inr Cons.prems have "revise_loop ox oy x y vs True ?d1 = Inr (True, d')" by simp
      moreover have "has_key ?d1 x" by (simp add: has_key_update)
      ultimately have "total_words d' \<le> total_words ?d1" by (rule revise_loop_total_le)
      moreover have "total_words ?d1 + length (dom_list d x) = total_words d + length (remove1 v (dom_list d x))"
        using Cons.prems(2) by (intro total_words_update has_key_dom_list)
      moreover have "length (remove1 v (dom_list d x)) < length (dom_list d x)"
      proof -
        have "v \<in> set (dom_list d x)" using Cons.prems(3) by simp
        then have "length (dom_list d x) > 0" by (cases "dom_list d x") auto
        with \<open>v \<in> set (dom_list d x)\<close> show ?thesis by (simp add: length_remove1)
      qed
      ultimately show ?thesis by linarith
    qed
  qed
qed

lemma revise_total:
  assumes "revise c x y d = Inr (b, d')"
  shows "total_words d' \<le> total_words d" and "b \<Longrightarrow> total_words d' < total_words d"
proof -
  show "total_words d' \<le> total_words d"
    using assms revise_loop_total_le[of _ _ x y _ False d b d']
    by (auto simp: revise_def domain_of_def has_key_def split: option.splits sum.splits)
  show "total_words d' < total_words d" if b
    using assms that revise_loop_total_less[of _ _ x y "dom_list d x" d d']
    by (auto simp: revise_def domain_of_def has_key_def dom_list_def split: option.splits sum.splits)
qed

termination ac3_loop
proof (relation "inv_image (less_than <*lex*> less_than) (\<lambda>(c, queue, d). (total_words d, length queue))", goal_cases)
  case 1
  show ?case by (intro wf_inv_image wf_lex_prod wf_less_than)
next
  case (2 c queue d x y p revised d' x_domain)
  then have "revise c x y d = Inr (True, d')" by simp
  from revise_total(2)[OF this] show ?case by simp
next
  case (3 c queue d x y p revised d')
  then have "revise c x y d = Inr (False, d')" by simp
  from revise_total(1)[OF this] 3(1) show ?case by (auto simp: le_less)
qed

lemma select_unassigned_variable_mem:
  "select_unassigned_variable c d a = Inr var \<Longrightarrow> var \<in> set (unassigned d a)"
proof -
  assume h: "select_unassigned_variable c d a = Inr var"
  let ?f = "\<lambda>variable. (int (length (dom_list d variable)), - int (length (neighbors c variable)))"
  from h obtain rest where "sort_key ?f (unassigned d a) = var # rest"
    by (auto simp: select_unassigned_variable_def Let_def split: list.splits)
  then have "var \<in> set (sort_key ?f (unassigned d a))" by simp
  then show ?thesis by simp
qed

lemma unassigned_update_less:
  assumes "var \<in> set (unassigned d a)"
  shows "length (unassigned d (AList.update var val a)) < length (unassigned d a)"
proof -
  have eq: "unassigned d (AList.update var val a) = [v \<leftarrow> unassigned d a. v \<noteq> var]"
    by (auto simp: unassigned_def has_key_update intro: filter_cong)
  have "length [v \<leftarrow> unassigned d a. v \<noteq> var] < length (unassigned d a)"
    using assms by (intro length_filter_less[of var]) auto
  with eq show ?thesis by simp
qed

termination backtrack
proof (relation "measure (\<lambda>(c, d, a). length (unassigned d a))", goal_cases)
  case 1
  show ?case by simp
next
  case (2 c d a var vals val b)
  from unassigned_update_less[OF select_unassigned_variable_mem[OF 2(2)]]
  show ?case by simp
qed

text \<open>The two defining equations are unfolded by hand, one iteration at a time.\<close>

declare ac3_loop.simps [simp del]
declare backtrack.simps [simp del]

section \<open>Node consistency: soundness and idempotence\<close>

lemma enforce_node_consistency_fold:
  "enforce_node_consistency d = fold node_step (map fst d) d"
  by (simp add: enforce_node_consistency_def)

lemma map_of_node_step:
  "has_key d k \<Longrightarrow> map_of (node_step k d) v =
     (if v = k then map_option (filter (\<lambda>w. int (length w) = var_length v)) (map_of d v) else map_of d v)"
  by (auto simp: node_step_def update_conv' dom_list_def has_key_def)

lemma keys_node_step: "has_key d k \<Longrightarrow> map fst (node_step k d) = map fst d"
  by (auto simp: node_step_def update_keys has_key_def map_of_eq_None_iff)

lemma has_key_iff: "has_key d k \<longleftrightarrow> k \<in> set (map fst d)"
  by (simp add: has_key_def map_of_eq_None_iff)

lemma fold_node_step:
  "set ks \<subseteq> set (map fst d) \<Longrightarrow>
   map fst (fold node_step ks d) = map fst d \<and>
   map_of (fold node_step ks d) v =
     (if v \<in> set ks then map_option (filter (\<lambda>w. int (length w) = var_length v)) (map_of d v)
      else map_of d v)"
proof (induction ks arbitrary: d)
  case Nil
  then show ?case by simp
next
  case (Cons k ks)
  from Cons.prems have hk: "has_key d k" by (simp add: has_key_iff)
  have keys: "map fst (node_step k d) = map fst d" by (rule keys_node_step[OF hk])
  with Cons.prems have "set ks \<subseteq> set (map fst (node_step k d))" by simp
  from Cons.IH[OF this] keys map_of_node_step[OF hk, of v]
  show ?case by (cases "map_of d v") (auto simp: option.map_comp)
qed

lemma map_of_enforce_node_consistency:
  "map_of (enforce_node_consistency d) v =
     map_option (filter (\<lambda>w. int (length w) = var_length v)) (map_of d v)"
proof -
  have "map_of d v = None" if "v \<notin> set (map fst d)"
    using that by (simp add: map_of_eq_None_iff)
  then show ?thesis
    using fold_node_step[of "map fst d" d v]
    by (auto simp: enforce_node_consistency_fold)
qed

lemma keys_enforce_node_consistency:
  "map fst (enforce_node_consistency d) = map fst d"
  using fold_node_step[of "map fst d" d] by (simp add: enforce_node_consistency_fold)

lemma dom_list_enforce_node_consistency:
  "dom_list (enforce_node_consistency d) v = [w \<leftarrow> dom_list d v. int (length w) = var_length v]"
  by (simp add: dom_list_def map_of_enforce_node_consistency split: option.splits)

lemma fold_fixed: "(\<And>k. k \<in> set ks \<Longrightarrow> f k d = d) \<Longrightarrow> fold f ks d = d"
  by (induction ks) auto

lemma node_step_fixed:
  assumes "has_key d k" and "\<forall>w \<in> set (dom_list d k). int (length w) = var_length k"
  shows "node_step k d = d"
proof -
  have "[val \<leftarrow> dom_list d k. int (length val) = var_length k] = dom_list d k"
    using assms(2) by (simp add: filter_id_conv)
  moreover have "map_of d k = Some (dom_list d k)"
    using assms(1) by (rule has_key_dom_list)
  ultimately show ?thesis by (simp add: node_step_def update_triv)
qed

text \<open>
  Claim C6. After \<open>enforce_node_consistency\<close>, every word left in a slot's domain has
  the slot's length, every word that was removed has another length, no word was added
  to a domain, and the slots of the store are the same.
\<close>

theorem node_consistency_soundness:
  "(\<forall>w \<in> set (dom_list (enforce_node_consistency d) v). int (length w) = var_length v) \<and>
   (\<forall>w \<in> set (dom_list d v) - set (dom_list (enforce_node_consistency d) v).
       int (length w) \<noteq> var_length v) \<and>
   set (dom_list (enforce_node_consistency d) v) \<subseteq> set (dom_list d v) \<and>
   map fst (enforce_node_consistency d) = map fst d"
  by (auto simp: dom_list_enforce_node_consistency keys_enforce_node_consistency)

theorem node_consistency_soundness_witness:
  "dom_list (enforce_node_consistency (init_domains puzzle_single)) slot_h = [''CAT'', ''DOG''] \<and>
   ''OX'' \<in> set (dom_list (init_domains puzzle_single) slot_h)
            - set (dom_list (enforce_node_consistency (init_domains puzzle_single)) slot_h) \<and>
   int (length ''OX'') \<noteq> var_length slot_h"
proof -
  have after: "dom_list (enforce_node_consistency (init_domains puzzle_single)) slot_h
                 = [''CAT'', ''DOG'']"
    by code_simp
  have before: "dom_list (init_domains puzzle_single) slot_h = [''CAT'', ''DOG'', ''OX'']"
    by code_simp
  have len: "var_length slot_h = 3" by (simp add: slot_h_def)
  show ?thesis
    using node_consistency_soundness[of "init_domains puzzle_single" slot_h]
    by (simp add: after before len)
qed

text \<open>
  Claim C7. Running \<open>enforce_node_consistency\<close> a second time changes nothing: the
  store after two runs is the store after one, for every initial store.
\<close>

theorem node_consistency_idempotent:
  "enforce_node_consistency (enforce_node_consistency d) = enforce_node_consistency d"
proof -
  let ?e = "enforce_node_consistency d"
  have "node_step k ?e = ?e" if "k \<in> set (map fst ?e)" for k
    using that by (intro node_step_fixed) (auto simp: has_key_iff dom_list_enforce_node_consistency)
  then have "fold node_step (map fst ?e) ?e = ?e" by (rule fold_fixed)
  then show ?thesis by (simp add: enforce_node_consistency_fold[of ?e])
qed

section \<open>The revision step: what the loop computes\<close>

lemma has_corresponding_value_result:
  "has_corresponding_value i j w ys = Inr b \<Longrightarrow> b = supported i j ys w"
  by (induction ys) (auto simp: supported_def agree_at_def split: sum.splits if_splits)

lemma has_corresponding_value_total:
  "indexable w i \<Longrightarrow> \<forall>w' \<in> set ys. indexable w' j \<Longrightarrow>
   has_corresponding_value i j w ys = Inr (supported i j ys w)"
  by (induction ys) (auto simp: supported_def agree_at_def indexable_def split: sum.splits)

lemma remove1_middle: "v \<notin> set ws \<Longrightarrow> remove1 v (ws @ v # vs) = ws @ vs"
  by (induction ws) auto

lemma dom_list_Some: "map_of d x = Some ws \<Longrightarrow> dom_list d x = ws"
  by (simp add: dom_list_def)

lemma revise_loop_result:
  assumes "x \<noteq> y"
  shows "revise_loop i j x y vs r d = Inr (b, d') \<Longrightarrow> map_of d x = Some (ws @ vs) \<Longrightarrow>
         \<forall>w \<in> set ws. supported i j (dom_list d y) w \<Longrightarrow>
         d' = AList.update x (ws @ [w \<leftarrow> vs. supported i j (dom_list d y) w]) d \<and>
         b = (r \<or> (\<exists>w \<in> set vs. \<not> supported i j (dom_list d y) w))"
proof (induction vs arbitrary: ws r d)
  case Nil
  then show ?case by (simp add: update_triv)
next
  case (Cons v vs)
  let ?ys = "dom_list d y"
  from Cons.prems(1) obtain s where s: "has_corresponding_value i j v ?ys = Inr s"
    by (cases "has_corresponding_value i j v ?ys") auto
  then have sv: "s = supported i j ?ys v" by (rule has_corresponding_value_result)
  show ?case
  proof (cases s)
    case True
    with s Cons.prems(1) have run: "revise_loop i j x y vs r d = Inr (b, d')" by simp
    have m: "map_of d x = Some ((ws @ [v]) @ vs)" using Cons.prems(2) by simp
    have k: "\<forall>w \<in> set (ws @ [v]). supported i j ?ys w" using Cons.prems(3) True sv by simp
    from Cons.IH[OF run m k] True sv show ?thesis by simp
  next
    case False
    let ?d1 = "AList.update x (remove1 v (dom_list d x)) d"
    from False sv Cons.prems(3) have "v \<notin> set ws" by auto
    then have d1: "?d1 = AList.update x (ws @ vs) d"
      using Cons.prems(2) by (simp add: dom_list_Some remove1_middle)
    from False s Cons.prems(1) have run: "revise_loop i j x y vs True ?d1 = Inr (b, d')" by simp
    have m: "map_of ?d1 x = Some (ws @ vs)" by (simp add: d1 update_conv')
    have ys: "dom_list ?d1 y = ?ys" using assms by (simp add: dom_list_update)
    have k: "\<forall>w \<in> set ws. supported i j (dom_list ?d1 y) w" using Cons.prems(3) ys by simp
    have ys1: "dom_list (AList.update x (ws @ vs) d) y = ?ys" using ys d1 by simp
    from Cons.IH[OF run m k] False sv show ?thesis by (auto simp: ys1 d1)
  qed
qed

lemma revise_loop_total:
  "\<forall>w \<in> set vs. indexable w i \<Longrightarrow> \<forall>w' \<in> set (dom_list d y). indexable w' j \<Longrightarrow>
   \<exists>b d'. revise_loop i j x y vs r d = Inr (b, d')"
proof (induction vs arbitrary: r d)
  case Nil
  then show ?case by simp
next
  case (Cons v vs)
  let ?d1 = "AList.update x (remove1 v (dom_list d x)) d"
  have s: "has_corresponding_value i j v (dom_list d y) = Inr (supported i j (dom_list d y) v)"
    using Cons.prems by (intro has_corresponding_value_total) auto
  have "set (dom_list ?d1 y) \<subseteq> set (dom_list d y)"
    using set_remove1_subset[of v "dom_list d x"] by (auto simp: dom_list_update)
  with Cons.prems(2) have ys: "\<forall>w' \<in> set (dom_list ?d1 y). indexable w' j" by blast
  have "\<exists>b d'. revise_loop i j x y vs r d = Inr (b, d')"
    using Cons.prems by (intro Cons.IH) auto
  moreover have "\<exists>b d'. revise_loop i j x y vs True ?d1 = Inr (b, d')"
    using Cons.prems(1) ys by (intro Cons.IH) auto
  ultimately show ?case using s by (cases "supported i j (dom_list d y) v") auto
qed

lemma revise_loop_empty_y:
  assumes "x \<noteq> y"
  shows "dom_list d y = [] \<Longrightarrow> \<exists>b d'. revise_loop i j x y vs r d = Inr (b, d')"
proof (induction vs arbitrary: r d)
  case Nil
  then show ?case by simp
next
  case (Cons v vs)
  have "dom_list (AList.update x (remove1 v (dom_list d x)) d) y = []"
    using assms Cons.prems by (simp add: dom_list_update)
  from Cons.IH[OF this] Cons.prems show ?case by simp
qed

lemma map_of_update_other: "z \<noteq> x \<Longrightarrow> map_of (AList.update x v d) z = map_of d z"
  by (simp add: update_conv')

lemma keys_update_present: "map_of d x = Some v \<Longrightarrow> map fst (AList.update x v' d) = map fst d"
  by (auto simp: update_keys map_of_eq_None_iff[symmetric] simp del: map_of_eq_None_iff)

lemma revise_defined:
  assumes "map_of (overlaps c) (x, y) = Some (Some (i, j))"
    and "map_of d x = Some xs" and "map_of d y = Some ys"
  shows "revise c x y d = revise_loop i j x y xs False d"
  using assms by (simp add: revise_def domain_of_def)

lemma revise_result:
  assumes ov: "map_of (overlaps c) (x, y) = Some (Some (i, j))" and neq: "x \<noteq> y"
    and dx: "map_of d x = Some xs" and dy: "map_of d y = Some ys"
    and run: "revise c x y d = Inr (b, d')"
  shows "d' = AList.update x [w \<leftarrow> xs. supported i j ys w] d"
    and "b \<longleftrightarrow> (\<exists>w \<in> set xs. \<not> supported i j ys w)"
proof -
  from run have "revise_loop i j x y xs False d = Inr (b, d')"
    by (simp add: revise_defined[OF ov dx dy])
  from revise_loop_result[OF neq this, of "[]"] dx dy
  show "d' = AList.update x [w \<leftarrow> xs. supported i j ys w] d"
    and "b \<longleftrightarrow> (\<exists>w \<in> set xs. \<not> supported i j ys w)"
    by (simp_all add: dom_list_Some)
qed

section \<open>The revision step: contract and safety\<close>

text \<open>
  Claim C4. For a pair \<open>(x, y)\<close> of distinct slots of the store: when the overlap is
  \<open>(i, j)\<close>, \<open>revise\<close> returns whenever the words of both domains can be indexed at
  their offset, and whenever it returns, \<open>x\<close>'s domain holds exactly the words that some
  word of \<open>y\<close>'s domain agrees with at the offsets, every other domain (that of \<open>y\<close>
  too) and the slots of the store are unchanged, and the result is true exactly when a
  word was removed. When the overlap is \<open>None\<close>, nothing changes and the result is
  false.
\<close>

theorem revise_contract:
  assumes "x \<noteq> y" and "map_of d x = Some xs" and "map_of d y = Some ys"
  shows "case map_of (overlaps c) (x, y) of
           Some (Some (i, j)) \<Rightarrow>
             (((\<forall>w \<in> set xs. indexable w i) \<and> (\<forall>w' \<in> set ys. indexable w' j)) \<longrightarrow>
                (\<exists>b d'. revise c x y d = Inr (b, d'))) \<and>
             (\<forall>b d'. revise c x y d = Inr (b, d') \<longrightarrow>
                map_of d' x = Some [w \<leftarrow> xs. supported i j ys w] \<and>
                (\<forall>z. z \<noteq> x \<longrightarrow> map_of d' z = map_of d z) \<and>
                map fst d' = map fst d \<and>
                (b \<longleftrightarrow> (\<exists>w \<in> set xs. \<not> supported i j ys w)))
         | Some None \<Rightarrow> revise c x y d = Inr (False, d)
         | None \<Rightarrow> revise c x y d = Inl KeyError"
proof (cases "map_of (overlaps c) (x, y)")
  case None
  then show ?thesis by (simp add: revise_def)
next
  case (Some ov)
  show ?thesis
  proof (cases ov)
    case None
    with Some show ?thesis by (simp add: revise_def)
  next
    case (Some p)
    obtain i j where p: "p = (i, j)" by (cases p)
    have ov: "map_of (overlaps c) (x, y) = Some (Some (i, j))"
      using \<open>map_of (overlaps c) (x, y) = Some ov\<close> Some p by simp
    have total: "\<exists>b d'. revise c x y d = Inr (b, d')"
      if "\<forall>w \<in> set xs. indexable w i" and "\<forall>w' \<in> set ys. indexable w' j"
      using revise_loop_total[of xs i d y j x False] that assms(3)
      by (simp add: revise_defined[OF ov assms(2,3)] dom_list_Some)
    have post: "map_of d' x = Some [w \<leftarrow> xs. supported i j ys w] \<and>
                (\<forall>z. z \<noteq> x \<longrightarrow> map_of d' z = map_of d z) \<and>
                map fst d' = map fst d \<and>
                (b \<longleftrightarrow> (\<exists>w \<in> set xs. \<not> supported i j ys w))"
      if run: "revise c x y d = Inr (b, d')" for b d'
      using revise_result[OF ov assms(1,2,3) run]
      by (simp add: update_conv' keys_update_present[OF assms(2)])
    from total post show ?thesis unfolding ov by (simp only: option.case prod.case) blast
  qed
qed

theorem revise_contract_witness:
  "(\<exists>b d'. revise puzzle_cross slot_h slot_v [(slot_h, [''CAT'', ''DOG'']), (slot_v, [''COW''])]
                = Inr (b, d') \<and>
            map_of d' slot_h = Some [''CAT''] \<and> map_of d' slot_v = Some [''COW''] \<and> b) \<and>
   revise puzzle_apart slot_h slot_h2 [(slot_h, [''CAT'']), (slot_h2, [''DOG''])]
     = Inr (False, [(slot_h, [''CAT'']), (slot_h2, [''DOG''])])"
proof -
  let ?d = "[(slot_h, [''CAT'', ''DOG'']), (slot_v, [''COW''])]"
  let ?e = "[(slot_h, [''CAT'']), (slot_h2, [''DOG''])]"
  have ov: "map_of (overlaps puzzle_cross) (slot_h, slot_v) = Some (Some (0, 0))"
    by (simp add: puzzle_cross_def)
  have neq: "slot_h \<noteq> slot_v" by (simp add: slot_h_def slot_v_def)
  have dx: "map_of ?d slot_h = Some [''CAT'', ''DOG'']" by simp
  have dy: "map_of ?d slot_v = Some [''COW'']" using neq by simp
  have idx: "(\<forall>w \<in> set [''CAT'', ''DOG'']. indexable w 0) \<and> (\<forall>w' \<in> set [''COW'']. indexable w' 0)"
    by (simp add: indexable_def str_index_def)
  have sup: "supported 0 0 [''COW''] ''CAT''" "\<not> supported 0 0 [''COW''] ''DOG''"
    by (simp_all add: supported_def agree_at_def str_index_def)
  from revise_contract[OF neq dx dy, of puzzle_cross] idx
  obtain b d' where run: "revise puzzle_cross slot_h slot_v ?d = Inr (b, d')"
    unfolding ov by (simp only: option.case prod.case) blast
  from revise_contract[OF neq dx dy, of puzzle_cross] run
  have "map_of d' slot_h = Some [w \<leftarrow> [''CAT'', ''DOG'']. supported 0 0 [''COW''] w] \<and>
        (\<forall>z. z \<noteq> slot_h \<longrightarrow> map_of d' z = map_of ?d z) \<and>
        (b \<longleftrightarrow> (\<exists>w \<in> set [''CAT'', ''DOG'']. \<not> supported 0 0 [''COW''] w))"
    unfolding ov by (simp only: option.case prod.case) blast
  with neq dy sup have first: "map_of d' slot_h = Some [''CAT''] \<and> map_of d' slot_v = Some [''COW''] \<and> b"
    by auto
  have ov2: "map_of (overlaps puzzle_apart) (slot_h, slot_h2) = Some None"
    by (simp add: puzzle_apart_def)
  have neq2: "slot_h \<noteq> slot_h2" by (simp add: slot_h_def slot_h2_def)
  have ex: "map_of ?e slot_h = Some [''CAT'']" by simp
  have ey: "map_of ?e slot_h2 = Some [''DOG'']" using neq2 by simp
  from revise_contract[OF neq2 ex ey, of puzzle_apart]
  have second: "revise puzzle_apart slot_h slot_h2 ?e = Inr (False, ?e)"
    unfolding ov2 by simp
  from run first second show ?thesis by blast
qed

text \<open>
  Claim C5, as the code has it. For a pair with an entry in the overlap table and both
  slots in the store, \<open>revise\<close> returns without an error when \<open>x\<close>'s domain is empty,
  when \<open>y\<close>'s domain is empty, when the overlap is \<open>None\<close>, and when every word of
  \<open>x\<close>'s domain can be indexed at \<open>x\<close>'s offset and every word of \<open>y\<close>'s domain at
  \<open>y\<close>'s offset, whatever the sizes of the domains. When \<open>y\<close>'s domain is empty and the
  overlap is defined, every word leaves \<open>x\<close>'s domain and the result is true exactly
  when that domain was not empty.
\<close>

theorem revise_safe:
  assumes "map_of (overlaps c) (x, y) = Some ov"
    and "map_of d x = Some xs" and "map_of d y = Some ys"
  shows "((xs = [] \<or> ys = [] \<or>
           (case ov of
              None \<Rightarrow> True
            | Some (i, j) \<Rightarrow> (\<forall>w \<in> set xs. indexable w i) \<and> (\<forall>w' \<in> set ys. indexable w' j)))
          \<longrightarrow> (\<exists>b d'. revise c x y d = Inr (b, d'))) \<and>
         (ys = [] \<and> ov \<noteq> None \<longrightarrow> revise c x y d = Inr (xs \<noteq> [], AList.update x [] d))"
proof (cases ov)
  case None
  with assms(1) have "revise c x y d = Inr (False, d)" by (simp add: revise_def)
  with None show ?thesis by (intro conjI impI exI[of _ False] exI[of _ d]) simp_all
next
  case (Some p)
  obtain i j where p: "p = (i, j)" by (cases p)
  have ov: "map_of (overlaps c) (x, y) = Some (Some (i, j))"
    using assms(1) Some p by simp
  note loop = revise_defined[OF ov assms(2,3)]
  have empty_x: "\<exists>b d'. revise c x y d = Inr (b, d')" if "xs = []"
    using that by (intro exI[of _ False] exI[of _ d]) (simp add: loop)
  have empty_y: "revise c x y d = Inr (xs \<noteq> [], AList.update x [] d)" if ys: "ys = []"
  proof (cases "x = y")
    case True
    with assms(2,3) ys have "xs = []" by simp
    with assms(2) show ?thesis by (simp add: loop update_triv)
  next
    case False
    from revise_loop_empty_y[OF False, of d i j xs False] assms(3) ys
    obtain b d' where run: "revise c x y d = Inr (b, d')"
      by (auto simp: loop dom_list_Some)
    from revise_result[OF ov False assms(2,3) run] ys
    have "d' = AList.update x [] d \<and> (b \<longleftrightarrow> xs \<noteq> [])"
      by (cases xs) (auto simp: supported_def)
    with run show ?thesis by simp
  qed
  have indexed: "\<exists>b d'. revise c x y d = Inr (b, d')"
    if "\<forall>w \<in> set xs. indexable w i" and "\<forall>w' \<in> set ys. indexable w' j"
    using revise_loop_total[of xs i d y j x False] that assms(3)
    by (simp add: loop dom_list_Some)
  from empty_x empty_y indexed show ?thesis
    unfolding Some p by (simp only: option.case prod.case) blast
qed

theorem revise_safe_witness:
  "(\<exists>b d'. revise puzzle_cross slot_h slot_v [(slot_h, [''CAT'']), (slot_v, [''DOG''])] = Inr (b, d')) \<and>
   revise puzzle_offset slot_h slot_v1 [(slot_h, [''A'']), (slot_v1, [])]
     = Inr (True, [(slot_h, []), (slot_v1, [])])"
proof -
  let ?d = "[(slot_h, [''CAT'']), (slot_v, [''DOG''])]"
  let ?e = "[(slot_h, [''A'']), (slot_v1, [])]"
  have ov: "map_of (overlaps puzzle_cross) (slot_h, slot_v) = Some (Some (0, 0))"
    by (simp add: puzzle_cross_def)
  have neq: "slot_h \<noteq> slot_v" by (simp add: slot_h_def slot_v_def)
  have dx: "map_of ?d slot_h = Some [''CAT'']" by simp
  have dy: "map_of ?d slot_v = Some [''DOG'']" using neq by simp
  have idx: "(\<forall>w \<in> set [''CAT'']. indexable w 0) \<and> (\<forall>w' \<in> set [''DOG'']. indexable w' 0)"
    by (simp add: indexable_def str_index_def)
  from revise_safe[OF ov dx dy] idx
  have first: "\<exists>b d'. revise puzzle_cross slot_h slot_v ?d = Inr (b, d')"
    by (simp only: option.case prod.case) blast
  have ov2: "map_of (overlaps puzzle_offset) (slot_h, slot_v1) = Some (Some (1, 0))"
    by (simp add: puzzle_offset_def)
  have neq2: "slot_h \<noteq> slot_v1" by (simp add: slot_h_def slot_v1_def)
  have ex: "map_of ?e slot_h = Some [''A'']" by simp
  have ey: "map_of ?e slot_v1 = Some []" using neq2 by simp
  from revise_safe[OF ov2 ex ey]
  have "revise puzzle_offset slot_h slot_v1 ?e = Inr ([''A''] \<noteq> [], AList.update slot_h [] ?e)"
    by blast
  then have second: "revise puzzle_offset slot_h slot_v1 ?e = Inr (True, [(slot_h, []), (slot_v1, [])])"
    by simp
  from first second show ?thesis by blast
qed

text \<open>
  The claim as stated fails: on one-element domains whose word is shorter than the
  offset, reading the character raises.
\<close>

theorem revise_short_word_raises:
  "revise puzzle_offset slot_h slot_v1 (init_domains puzzle_offset) = Inl IndexError \<and>
   map_of (init_domains puzzle_offset) slot_h = Some [''A''] \<and>
   map_of (init_domains puzzle_offset) slot_v1 = Some [''A'']"
  by (simp add: revise_def puzzle_offset_def init_domains_def domain_of_def dom_list_def
        str_index_def slot_h_def slot_v1_def)

section \<open>AC-3 halts\<close>

lemma length_neighbors: "length (removeAll y (neighbors c x)) \<le> length (variables c)"
proof -
  have "length (removeAll y (neighbors c x)) \<le> length (neighbors c x)"
    by (simp add: removeAll_filter_not_eq)
  also have "\<dots> \<le> length (variables c)"
    unfolding neighbors_def
    by (rule order_trans[OF length_remdups_leq]) simp
  finally show ?thesis .
qed

lemma ac3_fuel_enough:
  "length queue + total_words d * Suc (length (variables c)) < n \<Longrightarrow>
   ac3_fuel n c queue d = Some (ac3_loop c queue d)"
proof (induction n arbitrary: queue d)
  case 0
  then show ?case by simp
next
  case (Suc n)
  let ?N = "length (variables c)"
  show ?case
  proof (cases "queue = []")
    case True
    then show ?thesis by (simp add: ac3_loop.simps[of c "[]" d])
  next
    case False
    obtain x y where xy: "last queue = (x, y)" by (cases "last queue")
    show ?thesis
    proof (cases "revise c x y d")
      case (Inl e)
      with False xy show ?thesis by (simp add: ac3_loop.simps[of c queue d])
    next
      case (Inr p)
      obtain revised d' where p: "p = (revised, d')" by (cases p)
      note rv = Inr[unfolded p]
      show ?thesis
      proof (cases revised)
        case nrev: False
        from revise_total(1)[OF rv] have le: "total_words d' \<le> total_words d" .
        have "length (butlast queue) + total_words d' * Suc ?N < n"
        proof -
          have "length (butlast queue) < length queue" using False by simp
          moreover have "total_words d' * Suc ?N \<le> total_words d * Suc ?N"
            using le by (rule mult_le_mono1)
          ultimately show ?thesis using Suc.prems by linarith
        qed
        from Suc.IH[OF this] False xy rv nrev show ?thesis
          by (simp add: ac3_loop.simps[of c queue d])
      next
        case rev: True
        from revise_total(2)[OF rv] rev have less: "total_words d' < total_words d" by simp
        let ?q = "butlast queue @ map (\<lambda>z. (z, x)) (removeAll y (neighbors c x))"
        have "length ?q + total_words d' * Suc ?N < n"
        proof -
          have "length ?q \<le> length queue + ?N"
            using length_neighbors[of y c x] by simp
          moreover have "Suc (total_words d') * Suc ?N \<le> total_words d * Suc ?N"
            using less by (intro mult_le_mono1) simp
          ultimately show ?thesis using Suc.prems by simp
        qed
        from Suc.IH[OF this] False xy rv rev show ?thesis
          by (simp add: ac3_loop.simps[of c queue d] split: sum.splits)
      qed
    qed
  qed
qed

text \<open>
  Claim C8. The loop of \<open>ac3\<close> halts on every puzzle, every work list and every store:
  a revision that reports a change takes at least one word away, any other leaves the
  number of words as it is and only pops the list, and at most one pair per slot is
  appended. So the loop is over within
  \<open>length queue + total_words d * (length (variables c) + 1)\<close> iterations, and
  \<open>ac3_loop\<close> is its result.
\<close>

theorem ac3_halts:
  "ac3_fuel (Suc (length queue + total_words d * Suc (length (variables c)))) c queue d
     = Some (ac3_loop c queue d)"
  by (rule ac3_fuel_enough) simp

section \<open>The consistency check\<close>

lemma consistent_values_result:
  "\<forall>(v, w) \<in> set es. map_of a v = Some w \<Longrightarrow>
   consistent_values a (map fst es) S =
     Inr (\<not> list_ex (\<lambda>(v, w). int (length w) \<noteq> var_length v) es \<and>
          distinct (map snd es) \<and> set (map snd es) \<inter> S = {})"
proof (induction es arbitrary: S)
  case Nil
  then show ?case by simp
next
  case (Cons e es)
  obtain v w where e: "e = (v, w)" by (cases e)
  from Cons.prems e have m: "map_of a v = Some w" by simp
  from Cons.prems have "\<forall>(v, w) \<in> set es. map_of a v = Some w" by simp
  note ih = Cons.IH[OF this, of "insert w S"]
  show ?case using m ih by (auto simp: e)
qed

lemma word_reused_iff:
  assumes "distinct (map fst a)"
  shows "word_reused a \<longleftrightarrow> \<not> distinct (map snd a)"
proof -
  from assms have da: "distinct a" by (simp add: distinct_map)
  have "word_reused a \<longleftrightarrow> (\<exists>p \<in> set a. \<exists>q \<in> set a. fst p \<noteq> fst q \<and> snd p = snd q)"
    unfolding word_reused_def list_ex_iff by (simp add: case_prod_beta)
  also have "\<dots> \<longleftrightarrow> (\<exists>p \<in> set a. \<exists>q \<in> set a. p \<noteq> q \<and> snd p = snd q)"
    by (metis prod.collapse)
  also have "\<dots> \<longleftrightarrow> \<not> inj_on snd (set a)"
    unfolding inj_on_def by blast
  also have "\<dots> \<longleftrightarrow> \<not> distinct (map snd a)"
    using da by (simp add: distinct_map)
  finally show ?thesis .
qed

lemma str_index_in_range:
  "0 \<le> k \<Longrightarrow> k < int (length s) \<Longrightarrow> str_index s k = Inr (s ! nat k)"
  by (simp add: str_index_def)

lemma offsets_in_rangeD:
  assumes "offsets_in_range c" and "map_of (overlaps c) (x, y) = Some (Some (i, j))"
  shows "0 \<le> i \<and> i < var_length x \<and> 0 \<le> j \<and> j < var_length y"
proof -
  from assms(2) have "(x, y) \<in> set (map fst (overlaps c))"
    by (metis map_of_eq_None_iff option.distinct(1) set_map)
  with assms show ?thesis by (auto simp: offsets_in_range_def list_all_iff)
qed

lemma consistent_overlaps_result:
  assumes "offsets_in_range c"
    and "\<And>v w. map_of a v = Some w \<Longrightarrow> int (length w) = var_length v"
  shows "set ks \<subseteq> set (map fst (overlaps c)) \<Longrightarrow>
         consistent_overlaps c a ks =
           Inr (\<not> list_ex (\<lambda>(v1, v2).
                  (case map_of (overlaps c) (v1, v2) of
                     Some (Some (i, j)) \<Rightarrow>
                       (case map_of a v1 of
                          None \<Rightarrow> False
                        | Some w1 \<Rightarrow>
                            (case map_of a v2 of None \<Rightarrow> False | Some w2 \<Rightarrow> \<not> agree_at i j w1 w2))
                   | _ \<Rightarrow> False)) ks)"
proof (induction ks)
  case Nil
  then show ?case by simp
next
  case (Cons k ks)
  obtain v1 v2 where k: "k = (v1, v2)" by (cases k)
  from Cons.prems have ih: "consistent_overlaps c a ks = Inr (\<not> list_ex (\<lambda>(v1, v2).
                  (case map_of (overlaps c) (v1, v2) of
                     Some (Some (i, j)) \<Rightarrow>
                       (case map_of a v1 of
                          None \<Rightarrow> False
                        | Some w1 \<Rightarrow>
                            (case map_of a v2 of None \<Rightarrow> False | Some w2 \<Rightarrow> \<not> agree_at i j w1 w2))
                   | _ \<Rightarrow> False)) ks)"
    by (intro Cons.IH) simp
  from Cons.prems k obtain ov where ov: "map_of (overlaps c) (v1, v2) = Some ov"
    by (cases "map_of (overlaps c) (v1, v2)") (auto simp: map_of_eq_None_iff)
  show ?case
  proof (cases "has_key a v1 \<and> has_key a v2")
    case False
    then show ?thesis using ih by (auto simp: k has_key_def split: option.splits)
  next
    case True
    then obtain w1 w2 where w: "map_of a v1 = Some w1" "map_of a v2 = Some w2"
      by (auto simp: has_key_def)
    show ?thesis
    proof (cases ov)
      case None
      with ov True ih show ?thesis by (simp add: k)
    next
      case (Some p)
      obtain i j where p: "p = (i, j)" by (cases p)
      from ov Some p have ovd: "map_of (overlaps c) (v1, v2) = Some (Some (i, j))" by simp
      from offsets_in_rangeD[OF assms(1) ovd] assms(2)[OF w(1)] assms(2)[OF w(2)]
      have s1: "str_index w1 i = Inr (w1 ! nat i)" and s2: "str_index w2 j = Inr (w2 ! nat j)"
        by (simp_all add: str_index_in_range)
      show ?thesis using True ih by (simp add: k ovd w s1 s2 agree_at_def)
    qed
  qed
qed

lemma consistent_result:
  assumes "offsets_in_range c" and "distinct (map fst a)"
  shows "consistent c a = Inr (\<not> (word_reused a \<or> length_mismatch a \<or> overlap_conflict c a))"
proof -
  have mem: "\<forall>(v, w) \<in> set a. map_of a v = Some w"
    using assms(2) by auto
  from consistent_values_result[OF mem, of "{}"]
  have cv: "consistent_values a (map fst a) {} =
              Inr (\<not> length_mismatch a \<and> \<not> word_reused a)"
    by (simp add: length_mismatch_def word_reused_iff[OF assms(2)])
  show ?thesis
  proof (cases "length_mismatch a \<or> word_reused a")
    case True
    with cv show ?thesis by (auto simp: consistent_def)
  next
    case False
    then have "\<And>v w. map_of a v = Some w \<Longrightarrow> int (length w) = var_length v"
      by (auto simp: length_mismatch_def list_ex_iff dest: map_of_SomeD)
    from consistent_overlaps_result[OF assms(1) this, where ks = "map fst (overlaps c)"]
    have "consistent_overlaps c a (map fst (overlaps c)) = Inr (\<not> overlap_conflict c a)"
      by (simp add: overlap_conflict_def)
    with cv False show ?thesis by (simp add: consistent_def)
  qed
qed

text \<open>
  Claim C9. For a puzzle whose overlap offsets lie inside the slots and an assignment
  (a dictionary: no slot twice), \<open>consistent\<close> returns, and it returns false exactly
  when two different slots carry the same word, or a word has not the length of its
  slot, or two assigned slots with a defined overlap carry words that differ at the
  offsets. So it returns true for an assignment, complete or not, that breaks none of
  the three.
\<close>

theorem consistent_validity:
  assumes "offsets_in_range c" and "distinct (map fst a)"
  shows "consistent c a = Inr (\<not> (word_reused a \<or> length_mismatch a \<or> overlap_conflict c a))"
  using assms by (rule consistent_result)

theorem consistent_validity_witness:
  "consistent puzzle_cross [(slot_h, ''CAT''), (slot_v, ''COW'')] = Inr True \<and>
   consistent puzzle_cross [(slot_h, ''CAT''), (slot_v, ''DOG'')] = Inr False \<and>
   consistent puzzle_cross [(slot_h, ''CAT''), (slot_v, ''CAT'')] = Inr False \<and>
   consistent puzzle_cross [(slot_h, ''CAT''), (slot_v, ''CO'')] = Inr False \<and>
   consistent puzzle_cross [(slot_h, ''CAT'')] = Inr True"
proof -
  have r: "offsets_in_range puzzle_cross" by code_simp
  have d: "distinct (map fst [(slot_h, ''CAT''), (slot_v, w)])" for w :: string
    by (simp add: slot_h_def slot_v_def)
  have d1: "distinct (map fst [(slot_h, ''CAT'')])" by simp
  have e1: "\<not> (word_reused [(slot_h, ''CAT''), (slot_v, ''COW'')] \<or>
               length_mismatch [(slot_h, ''CAT''), (slot_v, ''COW'')] \<or>
               overlap_conflict puzzle_cross [(slot_h, ''CAT''), (slot_v, ''COW'')])"
    by code_simp
  have e2: "overlap_conflict puzzle_cross [(slot_h, ''CAT''), (slot_v, ''DOG'')]" by code_simp
  have e3: "word_reused [(slot_h, ''CAT''), (slot_v, ''CAT'')]" by code_simp
  have e4: "length_mismatch [(slot_h, ''CAT''), (slot_v, ''CO'')]" by code_simp
  have e5: "\<not> (word_reused [(slot_h, ''CAT'')] \<or> length_mismatch [(slot_h, ''CAT'')] \<or>
               overlap_conflict puzzle_cross [(slot_h, ''CAT'')])"
    by code_simp
  show ?thesis
    using consistent_validity[OF r d, of "''COW''"] consistent_validity[OF r d, of "''DOG''"]
      consistent_validity[OF r d, of "''CAT''"] consistent_validity[OF r d, of "''CO''"]
      consistent_validity[OF r d1] e1 e2 e3 e4 e5
    by simp
qed

section \<open>AC-3: the steps of the loop\<close>

lemma ac3_loop_Nil: "ac3_loop c [] d = Inr (True, d)"
  by (simp add: ac3_loop.simps[of c "[]" d])

lemma ac3_loop_error:
  "queue \<noteq> [] \<Longrightarrow> last queue = (x, y) \<Longrightarrow> revise c x y d = Inl e \<Longrightarrow>
   ac3_loop c queue d = Inl e"
  by (simp add: ac3_loop.simps[of c queue d])

lemma ac3_loop_unrevised:
  "queue \<noteq> [] \<Longrightarrow> last queue = (x, y) \<Longrightarrow> revise c x y d = Inr (False, d1) \<Longrightarrow>
   ac3_loop c queue d = ac3_loop c (butlast queue) d1"
  by (simp add: ac3_loop.simps[of c queue d])

lemma ac3_loop_emptied:
  "queue \<noteq> [] \<Longrightarrow> last queue = (x, y) \<Longrightarrow> revise c x y d = Inr (True, d1) \<Longrightarrow>
   map_of d1 x = Some [] \<Longrightarrow> ac3_loop c queue d = Inr (False, d1)"
  by (simp add: ac3_loop.simps[of c queue d] domain_of_def)

lemma ac3_loop_revised:
  "queue \<noteq> [] \<Longrightarrow> last queue = (x, y) \<Longrightarrow> revise c x y d = Inr (True, d1) \<Longrightarrow>
   map_of d1 x = Some ws \<Longrightarrow> ws \<noteq> [] \<Longrightarrow>
   ac3_loop c queue d = ac3_loop c (butlast queue @ enqueued c x y) d1"
  by (simp add: ac3_loop.simps[of c queue d] domain_of_def enqueued_def)

lemma revise_loop_frame:
  "revise_loop i j x y vs r d = Inr (b, d') \<Longrightarrow> has_key d x \<Longrightarrow>
   map fst d' = map fst d \<and> (\<forall>z. z \<noteq> x \<longrightarrow> map_of d' z = map_of d z) \<and>
   set (dom_list d' x) \<subseteq> set (dom_list d x) \<and> has_key d' x"
proof (induction vs arbitrary: r d)
  case Nil
  then show ?case by simp
next
  case (Cons v vs)
  from Cons.prems(1) obtain s where s: "has_corresponding_value i j v (dom_list d y) = Inr s"
    by (cases "has_corresponding_value i j v (dom_list d y)") auto
  show ?case
  proof (cases s)
    case True
    with s Cons show ?thesis by simp
  next
    case False
    let ?d1 = "AList.update x (remove1 v (dom_list d x)) d"
    from False s Cons.prems(1) have run: "revise_loop i j x y vs True ?d1 = Inr (b, d')" by simp
    have k: "has_key ?d1 x" by (simp add: has_key_update)
    have keys: "map fst ?d1 = map fst d"
      using Cons.prems(2) by (intro keys_update_present[OF has_key_dom_list])
    have sub: "set (dom_list ?d1 x) \<subseteq> set (dom_list d x)"
      using set_remove1_subset[of v "dom_list d x"] by (simp add: dom_list_update)
    from Cons.IH[OF run k] keys sub show ?thesis
      by (auto simp: update_conv')
  qed
qed

lemma revise_frame:
  assumes "revise c x y d = Inr (b, d')"
  shows "map fst d' = map fst d" and "\<And>z. z \<noteq> x \<Longrightarrow> map_of d' z = map_of d z"
    and "set (dom_list d' x) \<subseteq> set (dom_list d x)"
    and "b \<Longrightarrow> dom_list d x \<noteq> []" and "b \<Longrightarrow> has_key d' x"
proof -
  have "map fst d' = map fst d \<and> (\<forall>z. z \<noteq> x \<longrightarrow> map_of d' z = map_of d z) \<and>
        set (dom_list d' x) \<subseteq> set (dom_list d x) \<and> (b \<longrightarrow> dom_list d x \<noteq> [] \<and> has_key d' x)"
  proof (cases "map_of (overlaps c) (x, y)")
    case None
    with assms show ?thesis by (simp add: revise_def)
  next
    case (Some ov)
    show ?thesis
    proof (cases ov)
      case None
      with Some assms show ?thesis by (auto simp: revise_def)
    next
      case (Some p)
      obtain i j where p: "p = (i, j)" by (cases p)
      from assms \<open>map_of (overlaps c) (x, y) = Some ov\<close> Some p
      obtain xs where xs: "map_of d x = Some xs"
        and run: "revise_loop i j x y xs False d = Inr (b, d')"
        by (auto simp: revise_def domain_of_def split: option.splits)
      from xs have k: "has_key d x" by (simp add: has_key_def)
      have "xs \<noteq> []" if b using run that by (cases xs) auto
      with revise_loop_frame[OF run k] xs show ?thesis by (simp add: dom_list_Some)
    qed
  qed
  then show "map fst d' = map fst d" and "\<And>z. z \<noteq> x \<Longrightarrow> map_of d' z = map_of d z"
    and "set (dom_list d' x) \<subseteq> set (dom_list d x)"
    and "b \<Longrightarrow> dom_list d x \<noteq> []" and "b \<Longrightarrow> has_key d' x"
    by blast+
qed

lemma revise_shrinks:
  assumes "revise c x y d = Inr (b, d')"
  shows "set (dom_list d' v) \<subseteq> set (dom_list d v)"
  using revise_frame(2,3)[OF assms] by (cases "v = x") (auto simp: dom_list_def)

text \<open>An induction rule that follows the iterations of the loop.\<close>

lemma ac3_loop_iterations:
  assumes "\<And>c queue d.
      (\<And>x y d1. queue \<noteq> [] \<Longrightarrow> last queue = (x, y) \<Longrightarrow> revise c x y d = Inr (False, d1) \<Longrightarrow>
          P c (butlast queue) d1) \<Longrightarrow>
      (\<And>x y d1 ws. queue \<noteq> [] \<Longrightarrow> last queue = (x, y) \<Longrightarrow> revise c x y d = Inr (True, d1) \<Longrightarrow>
          map_of d1 x = Some ws \<Longrightarrow> ws \<noteq> [] \<Longrightarrow> P c (butlast queue @ enqueued c x y) d1) \<Longrightarrow>
      P c queue d"
  shows "P c queue d"
proof (induction c queue d rule: ac3_loop.induct)
  case (1 c queue d)
  show ?case
  proof (rule assms, goal_cases)
    case (1 x y d1)
    then show ?case by (intro "1.IH"(2)[of x y "(False, d1)" False d1]) auto
  next
    case (2 x y d1 ws)
    then show ?case
      unfolding enqueued_def
      by (intro "1.IH"(1)[of x y "(True, d1)" True d1 ws]) (auto simp: domain_of_def)
  qed
qed

section \<open>AC-3: failure\<close>

lemma ac3_loop_false:
  "ac3_loop c queue d = Inr (False, d') \<Longrightarrow> \<exists>x. dom_list d x \<noteq> [] \<and> map_of d' x = Some []"
proof (induction c queue d rule: ac3_loop_iterations)
  case (1 c queue d)
  show ?case
  proof (cases "queue = []")
    case True
    with "1.prems" show ?thesis by (simp add: ac3_loop_Nil)
  next
    case False
    obtain x y where xy: "last queue = (x, y)" by (cases "last queue")
    show ?thesis
    proof (cases "revise c x y d")
      case (Inl e)
      with "1.prems" ac3_loop_error[OF False xy Inl] show ?thesis by simp
    next
      case (Inr p)
      obtain b d1 where p: "p = (b, d1)" by (cases p)
      note rv = Inr[unfolded p]
      show ?thesis
      proof (cases b)
        case False
        with rv have rv': "revise c x y d = Inr (False, d1)" by simp
        from "1.prems" ac3_loop_unrevised[OF \<open>queue \<noteq> []\<close> xy rv']
        have "ac3_loop c (butlast queue) d1 = Inr (False, d')" by simp
        from "1.IH"(1)[OF \<open>queue \<noteq> []\<close> xy rv' this]
        obtain z where "dom_list d1 z \<noteq> []" and z: "map_of d' z = Some []" by blast
        with revise_shrinks[OF rv', of z] have "dom_list d z \<noteq> []" by auto
        with z show ?thesis by blast
      next
        case True
        with rv have rv': "revise c x y d = Inr (True, d1)" by simp
        from revise_frame(5)[OF rv'] obtain ws where ws: "map_of d1 x = Some ws"
          by (auto simp: has_key_def)
        show ?thesis
        proof (cases "ws = []")
          case True
          from "1.prems" ac3_loop_emptied[OF False xy rv' ws[unfolded True]]
          have "d' = d1" by simp
          with ws True revise_frame(4)[OF rv'] show ?thesis by blast
        next
          case nonempty: False
          from "1.prems" ac3_loop_revised[OF False xy rv' ws nonempty]
          have "ac3_loop c (butlast queue @ enqueued c x y) d1 = Inr (False, d')" by simp
          from "1.IH"(2)[OF False xy rv' ws nonempty this]
          obtain z where "dom_list d1 z \<noteq> []" and z: "map_of d' z = Some []" by blast
          with revise_shrinks[OF rv', of z] have "dom_list d z \<noteq> []" by auto
          with z show ?thesis by blast
        qed
      qed
    qed
  qed
qed

text \<open>
  What the loop does do. When the revision of the popped pair \<open>(x, y)\<close> reports a
  change and leaves \<open>x\<close>'s domain empty, \<open>ac3\<close> returns false in that very
  iteration, with the store as the revision left it. And \<open>ac3\<close> returns false only
  when a slot whose domain was not empty at the start has an empty domain at the end.
\<close>

lemma ac3_short_circuit:
  "(queue \<noteq> [] \<and> last queue = (x, y) \<and> revise c x y d = Inr (True, d1) \<and>
      map_of d1 x = Some [] \<longrightarrow>
      ac3_loop c queue d = Inr (False, d1) \<and>
      ac3_fuel (Suc 0) c queue d = Some (Inr (False, d1))) \<and>
   (ac3_loop c queue d = Inr (False, d') \<longrightarrow>
      (\<exists>z. dom_list d z \<noteq> [] \<and> map_of d' z = Some []))"
proof (intro conjI impI)
  assume h: "queue \<noteq> [] \<and> last queue = (x, y) \<and> revise c x y d = Inr (True, d1) \<and>
      map_of d1 x = Some []"
  then show "ac3_loop c queue d = Inr (False, d1)"
    by (intro ac3_loop_emptied[of queue x y c d d1]) simp_all
  from h show "ac3_fuel (Suc 0) c queue d = Some (Inr (False, d1))"
    by (simp add: domain_of_def)
next
  assume "ac3_loop c queue d = Inr (False, d')"
  then show "\<exists>z. dom_list d z \<noteq> [] \<and> map_of d' z = Some []" by (rule ac3_loop_false)
qed

lemma ac3_short_circuit_example:
  "ac3_loop puzzle_cross [(slot_h, slot_v), (slot_v, slot_h)]
       [(slot_h, [''CAT'']), (slot_v, [''DOG''])]
     = Inr (False, [(slot_h, [''CAT'']), (slot_v, [])]) \<and>
   ac3_fuel (Suc 0) puzzle_cross [(slot_h, slot_v), (slot_v, slot_h)]
       [(slot_h, [''CAT'']), (slot_v, [''DOG''])]
     = Some (Inr (False, [(slot_h, [''CAT'']), (slot_v, [])])) \<and>
   (\<exists>z. dom_list [(slot_h, [''CAT'']), (slot_v, [''DOG''])] z \<noteq> [] \<and>
        map_of [(slot_h, [''CAT'']), (slot_v, [])] z = Some [])"
proof -
  let ?q = "[(slot_h, slot_v), (slot_v, slot_h)]"
  let ?d = "[(slot_h, [''CAT'']), (slot_v, [''DOG''])]"
  let ?d1 = "[(slot_h, [''CAT'']), (slot_v, [])]"
  have rv: "revise puzzle_cross slot_v slot_h ?d = Inr (True, ?d1)" by code_simp
  have neq: "slot_h \<noteq> slot_v" by (simp add: slot_h_def slot_v_def)
  have m: "map_of ?d1 slot_v = Some []" using neq by simp
  note t = ac3_short_circuit[of ?q slot_v slot_h puzzle_cross ?d ?d1 ?d1]
  from t rv m have a: "ac3_loop puzzle_cross ?q ?d = Inr (False, ?d1)"
    and b: "ac3_fuel (Suc 0) puzzle_cross ?q ?d = Some (Inr (False, ?d1))"
    by simp_all
  from t a have "\<exists>z. dom_list ?d z \<noteq> [] \<and> map_of ?d1 z = Some []" by blast
  with a b show ?thesis by blast
qed

text \<open>
  Claim C3. A revision of a popped pair that leaves \<open>x\<close>'s domain empty is to make
  \<open>ac3\<close> return false at once; the docstring of \<open>ac3\<close> promises false when a
  domain ends up empty. The code tests the domain only under \<open>if self.revise(x, y)\<close>.
  On the two crossing slots with the vocabulary \<open>OX\<close>, both domains are empty after
  node consistency; the first pair popped is \<open>(slot_v, slot_h)\<close>, its revision leaves
  the domain of \<open>slot_v\<close> empty and reports no change, the loop goes on, and \<open>ac3\<close>
  returns true with both domains empty.
\<close>

theorem ac3_keeps_empty_domain:
  "enforce_node_consistency (init_domains puzzle_short) = [(slot_h, []), (slot_v, [])] \<and>
   last (map fst (overlaps puzzle_short)) = (slot_v, slot_h) \<and>
   revise puzzle_short slot_v slot_h [(slot_h, []), (slot_v, [])]
     = Inr (False, [(slot_h, []), (slot_v, [])]) \<and>
   ac3 puzzle_short None [(slot_h, []), (slot_v, [])] = Inr (True, [(slot_h, []), (slot_v, [])]) \<and>
   ac3 puzzle_short None (enforce_node_consistency (init_domains puzzle_short))
     = Inr (True, [(slot_h, []), (slot_v, [])])"
  by code_simp

section \<open>AC-3: the fixed point\<close>

lemma agree_at_sym: "agree_at i j w w' = agree_at j i w' w"
  by (auto simp: agree_at_def split: sum.splits)

lemma overlaps_well_formedD:
  assumes "overlaps_well_formed c" and "map_of (overlaps c) (x, y) = Some (Some (i, j))"
  shows "x \<noteq> y" and "x \<in> set (variables c)" and "y \<in> set (variables c)"
    and "map_of (overlaps c) (y, x) = Some (Some (j, i))"
proof -
  from assms(2) have "(x, y) \<in> set (map fst (overlaps c))"
    by (metis map_of_eq_None_iff option.distinct(1) set_map)
  with assms have "x \<noteq> y \<and> x \<in> set (variables c) \<and> y \<in> set (variables c) \<and>
      map_of (overlaps c) (y, x) = Some (Some (j, i))"
    by (auto simp: overlaps_well_formed_def list_all_iff)
  then show "x \<noteq> y" and "x \<in> set (variables c)" and "y \<in> set (variables c)"
    and "map_of (overlaps c) (y, x) = Some (Some (j, i))"
    by blast+
qed

lemma neighbors_iff:
  "z \<in> set (neighbors c x) \<longleftrightarrow>
     z \<in> set (variables c) \<and> z \<noteq> x \<and> (\<exists>p. map_of (overlaps c) (z, x) = Some (Some p))"
  by (auto simp: neighbors_def split: option.splits)

lemma enqueued_iff:
  "(z, x') \<in> set (enqueued c x y) \<longleftrightarrow> x' = x \<and> z \<noteq> y \<and> z \<in> set (neighbors c x)"
  by (auto simp: enqueued_def)

lemma revise_cases:
  assumes "revise c x y d = Inr (b, d1)"
  obtains (none) "map_of (overlaps c) (x, y) = Some None" "d1 = d" "\<not> b"
  | (some) i j xs ys where "map_of (overlaps c) (x, y) = Some (Some (i, j))"
      "map_of d x = Some xs" "map_of d y = Some ys"
proof (cases "map_of (overlaps c) (x, y)")
  case None
  with assms show ?thesis by (simp add: revise_def)
next
  case (Some ov)
  show ?thesis
  proof (cases ov)
    case None
    with Some assms show ?thesis by (intro none) (auto simp: revise_def)
  next
    case (Some p)
    obtain i j where p: "p = (i, j)" by (cases p)
    from assms \<open>map_of (overlaps c) (x, y) = Some ov\<close> Some p
    obtain xs ys where "map_of d x = Some xs" "map_of d y = Some ys"
      by (auto simp: revise_def domain_of_def split: option.splits)
    with \<open>map_of (overlaps c) (x, y) = Some ov\<close> Some p show ?thesis
      by (intro some[of i j xs ys]) simp_all
  qed
qed

lemma in_butlast: "q \<noteq> [] \<Longrightarrow> e \<in> set q \<Longrightarrow> e \<noteq> last q \<Longrightarrow> e \<in> set (butlast q)"
  by (metis append_butlast_last_id in_set_conv_decomp_first  rotate1.simps(2) set_ConsD set_rotate1)

lemma pending_step:
  assumes wf: "overlaps_well_formed c"
    and inv: "\<And>a b i j. map_of (overlaps c) (a, b) = Some (Some (i, j)) \<Longrightarrow>
               (a, b) \<in> set q \<or> arc_ok d a b i j"
    and q: "q \<noteq> []" "last q = (x, y)"
    and rv: "revise c x y d = Inr (r, d1)"
    and ab: "map_of (overlaps c) (a, b) = Some (Some (i', j'))"
  shows "(a, b) \<in> set (if r then butlast q @ enqueued c x y else butlast q) \<or> arc_ok d1 a b i' j'"
  using rv
proof (cases rule: revise_cases)
  case none
  with ab have "(a, b) \<noteq> last q" using q(2) by auto
  with inv[OF ab] q(1) none show ?thesis by (auto intro: in_butlast)
next
  case (some i j xs ys)
  note xy = overlaps_well_formedD[OF wf some(1)]
  let ?xs' = "[w \<leftarrow> xs. supported i j ys w]"
  from revise_result[OF some(1) xy(1) some(2,3) rv]
  have d1: "d1 = AList.update x ?xs' d" and r: "r \<longleftrightarrow> (\<exists>w \<in> set xs. \<not> supported i j ys w)"
    by simp_all
  have dx: "dom_list d x = xs" and dy: "dom_list d y = ys"
    using some(2,3) by (simp_all add: dom_list_Some)
  have dom1: "dom_list d1 z = (if z = x then ?xs' else dom_list d z)" for z
    by (simp add: d1 dom_list_update)
  show ?thesis
  proof (cases "(a, b) = (x, y)")
    case True
    with ab some(1) have "i' = i" "j' = j" by simp_all
    with True xy(1) have "arc_ok d1 a b i' j'"
      by (auto simp: arc_ok_def dom1 dy list_all_iff)
    then show ?thesis ..
  next
    case False
    then have nl: "(a, b) \<noteq> last q" using q(2) by simp
    from inv[OF ab] show ?thesis
    proof
      assume mem: "(a, b) \<in> set q"
      have "(a, b) \<in> set (butlast q)" by (rule in_butlast[OF q(1) mem nl])
      then show ?thesis by auto
    next
      assume ok: "arc_ok d a b i' j'"
      show ?thesis
      proof (cases r)
        case False
        with r have "?xs' = xs" by (simp add: filter_id_conv)
        with d1 some(2) have "d1 = d" by (simp add: update_triv)
        with ok show ?thesis by simp
      next
        case True
        note ab' = overlaps_well_formedD[OF wf ab]
        show ?thesis
        proof (cases "b = x")
          case bx: True
          with ab'(1) have ax: "a \<noteq> x" by simp
          show ?thesis
          proof (cases "a = y")
            case ay: True
            from ab bx ay xy(4) have ij: "i' = j" "j' = i" by simp_all
            have "supported j i ?xs' w'" if "w' \<in> set ys" for w'
            proof -
              from ok that ay bx ij obtain w where w: "w \<in> set xs" "agree_at j i w' w"
                by (auto simp: arc_ok_def dx dy list_all_iff supported_def list_ex_iff)
              then have "agree_at i j w w'" by (simp add: agree_at_sym[of i j])
              with that have "supported i j ys w" by (auto simp: supported_def list_ex_iff)
              with w show ?thesis by (auto simp: supported_def list_ex_iff)
            qed
            then have "arc_ok d1 a b i' j'"
              using ay bx ij xy(1) by (auto simp: arc_ok_def dom1 dy list_all_iff)
            then show ?thesis ..
          next
            case False
            with ab ab'(2) ax bx have "(a, b) \<in> set (enqueued c x y)"
              by (auto simp: enqueued_iff neighbors_iff)
            with True show ?thesis by simp
          qed
        next
          case False
          with ok have "arc_ok d1 a b i' j'"
            by (auto simp: arc_ok_def dom1 dx list_all_iff)
          then show ?thesis ..
        qed
      qed
    qed
  qed
qed

lemma ac3_loop_fixed_point:
  "overlaps_well_formed c \<Longrightarrow>
   (\<forall>a b i j. map_of (overlaps c) (a, b) = Some (Some (i, j)) \<longrightarrow>
       (a, b) \<in> set queue \<or> arc_ok d a b i j) \<Longrightarrow>
   ac3_loop c queue d = Inr (True, d') \<Longrightarrow>
   (\<forall>a b i j. map_of (overlaps c) (a, b) = Some (Some (i, j)) \<longrightarrow> arc_ok d' a b i j)"
proof (induction c queue d rule: ac3_loop_iterations)
  case (1 c queue d)
  note wf = "1.prems"(1) and inv = "1.prems"(2) and res = "1.prems"(3)
  show ?case
  proof (cases "queue = []")
    case True
    with res inv show ?thesis by (simp add: ac3_loop_Nil)
  next
    case False
    obtain x y where xy: "last queue = (x, y)" by (cases "last queue")
    show ?thesis
    proof (cases "revise c x y d")
      case (Inl e)
      with res ac3_loop_error[OF False xy Inl] show ?thesis by simp
    next
      case (Inr p)
      obtain r d1 where p: "p = (r, d1)" by (cases p)
      note rv = Inr[unfolded p]
      have step: "\<forall>a b i j. map_of (overlaps c) (a, b) = Some (Some (i, j)) \<longrightarrow>
          (a, b) \<in> set (if r then butlast queue @ enqueued c x y else butlast queue) \<or>
          arc_ok d1 a b i j"
        using pending_step[OF wf _ False xy rv] inv by blast
      show ?thesis
      proof (cases r)
        case nr: False
        with rv have rv': "revise c x y d = Inr (False, d1)" by simp
        from res ac3_loop_unrevised[OF False xy rv']
        have "ac3_loop c (butlast queue) d1 = Inr (True, d')" by simp
        from "1.IH"(1)[OF False xy rv' wf _ this] step nr show ?thesis by simp
      next
        case True
        with rv have rv': "revise c x y d = Inr (True, d1)" by simp
        from revise_frame(5)[OF rv'] obtain ws where ws: "map_of d1 x = Some ws"
          by (auto simp: has_key_def)
        show ?thesis
        proof (cases "ws = []")
          case e: True
          from res ac3_loop_emptied[OF False xy rv' ws[unfolded e]] show ?thesis by simp
        next
          case nonempty: False
          from res ac3_loop_revised[OF False xy rv' ws nonempty]
          have "ac3_loop c (butlast queue @ enqueued c x y) d1 = Inr (True, d')" by simp
          from "1.IH"(2)[OF False xy rv' ws nonempty wf _ this] step True show ?thesis by simp
        qed
      qed
    qed
  qed
qed

text \<open>
  Claim C2. On a puzzle with a well-formed overlap table, whenever \<open>ac3\<close> with the
  default work list returns true, every word left in the domain of \<open>x\<close> has a word in
  the domain of \<open>y\<close> that agrees with it at the offsets, for every ordered pair
  \<open>(x, y)\<close> with a defined overlap.
\<close>

theorem ac3_fixed_point:
  assumes "overlaps_well_formed c" and "ac3 c None d = Inr (True, d')"
  shows "arc_consistent c d'"
proof -
  have start: "\<forall>a b i j. map_of (overlaps c) (a, b) = Some (Some (i, j)) \<longrightarrow>
      (a, b) \<in> set (map fst (overlaps c)) \<or> arc_ok d a b i j"
    by (metis map_of_eq_None_iff option.distinct(1) set_map)
  from assms(2) have "ac3_loop c (map fst (overlaps c)) d = Inr (True, d')"
    by (simp add: ac3_def)
  from ac3_loop_fixed_point[OF assms(1) start this] show ?thesis
    by (auto simp: arc_consistent_def list_all_iff split: option.splits)
qed

theorem ac3_fixed_point_witness:
  "ac3 puzzle_cross None [(slot_h, [''CAT'', ''DOG'']), (slot_v, [''COW'', ''CAT''])]
     = Inr (True, [(slot_h, [''CAT'']), (slot_v, [''COW'', ''CAT''])]) \<and>
   arc_consistent puzzle_cross [(slot_h, [''CAT'']), (slot_v, [''COW'', ''CAT''])] \<and>
   arc_ok [(slot_h, [''CAT'']), (slot_v, [''COW'', ''CAT''])] slot_v slot_h 0 0"
proof -
  let ?d = "[(slot_h, [''CAT'', ''DOG'']), (slot_v, [''COW'', ''CAT''])]"
  let ?d' = "[(slot_h, [''CAT'']), (slot_v, [''COW'', ''CAT''])]"
  have wf: "overlaps_well_formed puzzle_cross" by code_simp
  have run: "ac3 puzzle_cross None ?d = Inr (True, ?d')" by code_simp
  from ac3_fixed_point[OF wf run] have ac: "arc_consistent puzzle_cross ?d'" .
  have "slot_h \<noteq> slot_v" by (simp add: slot_h_def slot_v_def)
  with ac have "arc_ok ?d' slot_v slot_h 0 0"
    by (simp add: arc_consistent_def puzzle_cross_def)
  with run ac show ?thesis by blast
qed

section \<open>AC-3 before the search\<close>

lemma lengths_ok_iff:
  "lengths_ok d \<longleftrightarrow> (\<forall>v w. w \<in> set (dom_list d v) \<longrightarrow> int (length w) = var_length v)"
proof -
  have "dom_list d v = []" if "v \<notin> set (map fst d)" for v
    using that by (simp add: dom_list_def map_of_eq_None_iff[symmetric] del: map_of_eq_None_iff)
  then show ?thesis
    unfolding lengths_ok_def list_all_iff by (metis empty_iff empty_set)
qed

lemma indexable_in_range: "0 \<le> k \<Longrightarrow> k < int (length w) \<Longrightarrow> indexable w k"
  by (simp add: indexable_def str_index_in_range)

lemma key_of_overlap:
  "map_of (overlaps c) k = Some ov \<Longrightarrow> k \<in> set (map fst (overlaps c))"
  by (metis map_of_eq_None_iff option.distinct(1) set_map)

lemma revise_returns:
  assumes wf: "overlaps_well_formed c" and rng: "offsets_in_range c"
    and len: "lengths_ok d" and keys: "set (variables c) \<subseteq> set (map fst d)"
    and k: "(x, y) \<in> set (map fst (overlaps c))"
  shows "\<exists>b d1. revise c x y d = Inr (b, d1)"
proof -
  from k obtain ov where ov: "map_of (overlaps c) (x, y) = Some ov"
    by (cases "map_of (overlaps c) (x, y)") (auto simp: map_of_eq_None_iff)
  show ?thesis
  proof (cases ov)
    case None
    with ov have "revise c x y d = Inr (False, d)" by (simp add: revise_def)
    then show ?thesis by blast
  next
    case (Some p)
    obtain i j where p: "p = (i, j)" by (cases p)
    from ov Some p have ovd: "map_of (overlaps c) (x, y) = Some (Some (i, j))" by simp
    note w = overlaps_well_formedD[OF wf ovd] and r = offsets_in_rangeD[OF rng ovd]
    from w(2,3) keys obtain xs ys where xs: "map_of d x = Some xs" and ys: "map_of d y = Some ys"
      by (metis has_key_def has_key_iff not_None_eq subsetD)
    have "int (length w) = var_length x" if "w \<in> set xs" for w
      using len that dom_list_Some[OF xs] unfolding lengths_ok_iff by blast
    then have "\<forall>w \<in> set xs. indexable w i"
      using r by (auto intro!: indexable_in_range)
    moreover have "int (length w) = var_length y" if "w \<in> set ys" for w
      using len that dom_list_Some[OF ys] unfolding lengths_ok_iff by blast
    then have "\<forall>w \<in> set ys. indexable w j"
      using r by (auto intro!: indexable_in_range)
    ultimately show ?thesis
      using revise_loop_total[of xs i d y j x False] ys
      by (simp add: revise_defined[OF ovd xs ys] dom_list_Some)
  qed
qed

lemma revise_lengths_ok:
  assumes "revise c x y d = Inr (b, d1)" and "lengths_ok d"
  shows "lengths_ok d1"
  using assms(2) revise_shrinks[OF assms(1)] unfolding lengths_ok_iff by blast

lemma ac3_loop_returns:
  "overlaps_well_formed c \<Longrightarrow> offsets_in_range c \<Longrightarrow> lengths_ok d \<Longrightarrow>
   set (variables c) \<subseteq> set (map fst d) \<Longrightarrow> set queue \<subseteq> set (map fst (overlaps c)) \<Longrightarrow>
   \<exists>b d'. ac3_loop c queue d = Inr (b, d')"
proof (induction c queue d rule: ac3_loop_iterations)
  case (1 c queue d)
  note wf = "1.prems"(1) and rng = "1.prems"(2) and len = "1.prems"(3)
    and keys = "1.prems"(4) and qk = "1.prems"(5)
  show ?case
  proof (cases "queue = []")
    case True
    then have "ac3_loop c queue d = Inr (True, d)" by (simp add: ac3_loop_Nil)
    then show ?thesis by blast
  next
    case False
    obtain x y where xy: "last queue = (x, y)" by (cases "last queue")
    from False xy qk have k: "(x, y) \<in> set (map fst (overlaps c))"
      using last_in_set[OF False] by auto
    from revise_returns[OF wf rng len keys k] obtain b d1
      where rv: "revise c x y d = Inr (b, d1)" by blast
    have len1: "lengths_ok d1" by (rule revise_lengths_ok[OF rv len])
    have keys1: "set (variables c) \<subseteq> set (map fst d1)"
      using keys revise_frame(1)[OF rv] by simp
    have qk1: "set (butlast queue) \<subseteq> set (map fst (overlaps c))"
      using qk by (meson in_set_butlastD subset_code(1))
    show ?thesis
    proof (cases b)
      case nb: False
      with rv have rv': "revise c x y d = Inr (False, d1)" by simp
      from "1.IH"(1)[OF False xy rv' wf rng len1 keys1 qk1]
      show ?thesis by (simp add: ac3_loop_unrevised[OF False xy rv'])
    next
      case True
      with rv have rv': "revise c x y d = Inr (True, d1)" by simp
      from revise_frame(5)[OF rv'] obtain ws where ws: "map_of d1 x = Some ws"
        by (auto simp: has_key_def)
      show ?thesis
      proof (cases "ws = []")
        case e: True
        from ac3_loop_emptied[OF False xy rv' ws[unfolded e]] show ?thesis by blast
      next
        case nonempty: False
        have "set (enqueued c x y) \<subseteq> set (map fst (overlaps c))"
        proof
          fix e assume "e \<in> set (enqueued c x y)"
          then obtain z where e: "e = (z, x)" and "z \<in> set (neighbors c x)"
            unfolding enqueued_def by auto
          then obtain p where "map_of (overlaps c) (z, x) = Some (Some p)"
            unfolding neighbors_iff by blast
          then show "e \<in> set (map fst (overlaps c))" unfolding e by (rule key_of_overlap)
        qed
        with qk1 have "set (butlast queue @ enqueued c x y) \<subseteq> set (map fst (overlaps c))"
          by simp
        from "1.IH"(2)[OF False xy rv' ws nonempty wf rng len1 keys1 this]
        show ?thesis by (simp add: ac3_loop_revised[OF False xy rv' ws nonempty])
      qed
    qed
  qed
qed

lemma no_conflictD:
  assumes "\<not> overlap_conflict c r" and "map_of (overlaps c) (x, y) = Some (Some (i, j))"
    and "map_of r x = Some w1" and "map_of r y = Some w2"
  shows "agree_at i j w1 w2"
proof -
  from assms(2) have "(x, y) \<in> set (map fst (overlaps c))" by (rule key_of_overlap)
  with assms show ?thesis
    by (auto simp: overlap_conflict_def list_ex_iff split: option.splits)
qed

lemma revise_keeps:
  assumes wf: "overlaps_well_formed c" and nc: "\<not> overlap_conflict c r"
    and kept: "kept_by c r d" and rv: "revise c x y d = Inr (b, d1)"
  shows "kept_by c r d1"
  using rv
proof (cases rule: revise_cases)
  case none
  with kept show ?thesis by simp
next
  case (some i j xs ys)
  note w = overlaps_well_formedD[OF wf some(1)]
  from revise_result(1)[OF some(1) w(1) some(2,3) rv]
  have d1: "d1 = AList.update x [w \<leftarrow> xs. supported i j ys w] d" .
  from kept w(2) some(2) obtain w1 where w1: "map_of r x = Some w1" "w1 \<in> set xs"
    unfolding kept_by_def by (metis dom_list_Some)
  from kept w(3) some(3) obtain w2 where w2: "map_of r y = Some w2" "w2 \<in> set ys"
    unfolding kept_by_def by (metis dom_list_Some)
  from no_conflictD[OF nc some(1) w1(1) w2(1)] w2(2)
  have "supported i j ys w1" by (auto simp: supported_def list_ex_iff)
  with w1 kept show ?thesis
    unfolding kept_by_def d1 dom_list_update by auto
qed

lemma ac3_loop_result:
  "ac3_loop c queue d = Inr (b, d') \<Longrightarrow>
   map fst d' = map fst d \<and> (\<forall>v. set (dom_list d' v) \<subseteq> set (dom_list d v)) \<and>
   (overlaps_well_formed c \<longrightarrow> (\<forall>r. \<not> overlap_conflict c r \<longrightarrow> kept_by c r d \<longrightarrow> kept_by c r d'))"
proof (induction c queue d rule: ac3_loop_iterations)
  case (1 c queue d)
  show ?case
  proof (cases "queue = []")
    case True
    with "1.prems" show ?thesis by (simp add: ac3_loop_Nil)
  next
    case False
    obtain x y where xy: "last queue = (x, y)" by (cases "last queue")
    show ?thesis
    proof (cases "revise c x y d")
      case (Inl e)
      with "1.prems" ac3_loop_error[OF False xy Inl] show ?thesis by simp
    next
      case (Inr p)
      obtain rev d1 where p: "p = (rev, d1)" by (cases p)
      note rv = Inr[unfolded p]
      note fr = revise_frame(1)[OF rv] and sh = revise_shrinks[OF rv]
      have kp: "kept_by c r d1"
        if "overlaps_well_formed c" "\<not> overlap_conflict c r" "kept_by c r d" for r
        using revise_keeps[OF that rv] .
      have lift: ?thesis
        if "map fst d' = map fst d1 \<and> (\<forall>v. set (dom_list d' v) \<subseteq> set (dom_list d1 v)) \<and>
           (overlaps_well_formed c \<longrightarrow>
              (\<forall>r. \<not> overlap_conflict c r \<longrightarrow> kept_by c r d1 \<longrightarrow> kept_by c r d'))"
        using that fr sh kp by (metis subset_trans)
      show ?thesis
      proof (cases rev)
        case nrev: False
        with rv have rv': "revise c x y d = Inr (False, d1)" by simp
        from "1.prems" ac3_loop_unrevised[OF False xy rv']
        have "ac3_loop c (butlast queue) d1 = Inr (b, d')" by simp
        from "1.IH"(1)[OF False xy rv' this] show ?thesis by (rule lift)
      next
        case True
        with rv have rv': "revise c x y d = Inr (True, d1)" by simp
        from revise_frame(5)[OF rv'] obtain ws where ws: "map_of d1 x = Some ws"
          by (auto simp: has_key_def)
        show ?thesis
        proof (cases "ws = []")
          case e: True
          from "1.prems" ac3_loop_emptied[OF False xy rv' ws[unfolded e]]
          have "d' = d1" by simp
          then show ?thesis by (intro lift) simp
        next
          case nonempty: False
          from "1.prems" ac3_loop_revised[OF False xy rv' ws nonempty]
          have "ac3_loop c (butlast queue @ enqueued c x y) d1 = Inr (b, d')" by simp
          from "1.IH"(2)[OF False xy rv' ws nonempty this] show ?thesis by (rule lift)
        qed
      qed
    qed
  qed
qed

section \<open>The search: its loop and its heuristics\<close>

lemma first_result_None:
  "first_result f xs = Inr None \<Longrightarrow> x \<in> set xs \<Longrightarrow> f x = Inr None"
  by (induction xs) (auto split: sum.splits option.splits)

lemma first_result_Some:
  "first_result f xs = Inr (Some r) \<Longrightarrow> \<exists>x \<in> set xs. f x = Inr (Some r)"
  by (induction xs) (auto split: sum.splits option.splits)

lemma first_result_returns:
  "(\<And>x. x \<in> set xs \<Longrightarrow> \<exists>res. f x = Inr res) \<Longrightarrow> \<exists>res. first_result f xs = Inr res"
proof (induction xs)
  case Nil
  then show ?case by simp
next
  case (Cons x xs)
  from Cons.prems[of x] obtain res where res: "f x = Inr res" by auto
  from Cons.IH Cons.prems obtain res' where "first_result f xs = Inr res'" by auto
  with res show ?case by (cases res) auto
qed

lemma sort_keys_snd: "sort_keys f xs = Inr ks \<Longrightarrow> map snd ks = xs"
  by (induction xs arbitrary: ks) (auto split: sum.splits)

lemma sort_keys_returns:
  "(\<And>x. x \<in> set xs \<Longrightarrow> \<exists>k. f x = Inr k) \<Longrightarrow> \<exists>ks. sort_keys f xs = Inr ks"
proof (induction xs)
  case Nil
  then show ?case by simp
next
  case (Cons x xs)
  from Cons.prems[of x] obtain k where "f x = Inr k" by auto
  moreover from Cons.IH Cons.prems obtain ks where "sort_keys f xs = Inr ks" by auto
  ultimately show ?case by simp
qed

lemma count_mismatches_returns:
  "indexable val0 iv \<Longrightarrow> \<forall>v \<in> set vals. indexable v ineigh \<Longrightarrow>
   \<exists>k. count_mismatches iv ineigh val0 vals = Inr k"
  by (induction vals) (auto simp: indexable_def split: sum.splits)

lemma lengths_okD: "lengths_ok d \<Longrightarrow> map_of d v = Some ws \<Longrightarrow> w \<in> set ws \<Longrightarrow> int (length w) = var_length v"
  unfolding lengths_ok_iff by (metis dom_list_Some)

lemma key_present:
  "set (variables c) \<subseteq> set (map fst d) \<Longrightarrow> v \<in> set (variables c) \<Longrightarrow> \<exists>ws. map_of d v = Some ws"
  by (metis has_key_def has_key_iff not_None_eq subsetD)

lemma count_eliminated_loop_returns:
  assumes wf: "overlaps_well_formed c" and rng: "offsets_in_range c"
    and len: "lengths_ok d" and keys: "set (variables c) \<subseteq> set (map fst d)"
    and val0: "int (length val0) = var_length var"
  shows "set ns \<subseteq> set (neighbors c var) \<Longrightarrow>
         \<exists>k. count_eliminated_loop c d var val0 ns e = Inr k"
proof (induction ns arbitrary: e)
  case Nil
  then show ?case by simp
next
  case (Cons n ns)
  from Cons.prems have "n \<in> set (neighbors c var)" by simp
  then obtain p where nv: "n \<in> set (variables c)" and p: "map_of (overlaps c) (n, var) = Some (Some p)"
    unfolding neighbors_iff by blast
  obtain a b where ab: "p = (a, b)" by (cases p)
  from overlaps_well_formedD(4)[OF wf p[unfolded ab]]
  have ov: "map_of (overlaps c) (var, n) = Some (Some (b, a))" .
  note r = offsets_in_rangeD[OF rng ov]
  from key_present[OF keys nv] obtain nd where nd: "map_of d n = Some nd" by blast
  have "indexable val0 b" using r val0 by (intro indexable_in_range) simp_all
  moreover have "\<forall>v \<in> set nd. indexable v a"
    using r lengths_okD[OF len nd] by (auto intro!: indexable_in_range)
  ultimately obtain k where k: "count_mismatches b a val0 nd = Inr k"
    using count_mismatches_returns by blast
  from Cons.IH[of "e + k"] Cons.prems obtain k' where
    "count_eliminated_loop c d var val0 ns (e + k) = Inr k'" by auto
  with ov nd k show ?case by (simp add: domain_of_def)
qed

lemma order_domain_values_returns:
  assumes wf: "overlaps_well_formed c" and rng: "offsets_in_range c"
    and len: "lengths_ok d" and keys: "set (variables c) \<subseteq> set (map fst d)"
    and ws: "map_of d var = Some ws"
  shows "\<exists>vals. order_domain_values c d var a = Inr vals \<and> set vals = set ws"
proof -
  let ?f = "\<lambda>val0. count_eliminated_values c d a var val0 var"
  have "\<exists>k. ?f val0 = Inr k" if "val0 \<in> set ws" for val0
    unfolding count_eliminated_values_def
    using lengths_okD[OF len ws that]
    by (intro count_eliminated_loop_returns[OF wf rng len keys]) auto
  from sort_keys_returns[of ws ?f, OF this] obtain ks where ks: "sort_keys ?f ws = Inr ks"
    by blast
  have "set (map snd (sort_key fst ks)) = set (map snd ks)" by simp
  with sort_keys_snd[OF ks] have "set (map snd (sort_key fst ks)) = set ws" by simp
  with ks ws show ?thesis by (simp add: order_domain_values_def domain_of_def)
qed

lemma select_unassigned_variable_returns:
  assumes "\<not> assignment_complete d a"
  shows "\<exists>var. select_unassigned_variable c d a = Inr var"
proof -
  let ?f = "\<lambda>variable. (int (length (dom_list d variable)), - int (length (neighbors c variable)))"
  from assms have "unassigned d a \<noteq> []"
    by (auto simp: assignment_complete_def unassigned_def list_all_iff filter_empty_conv)
  then have "sort_key ?f (unassigned d a) \<noteq> []"
    by (metis length_0_conv length_sort)
  then show ?thesis
    by (cases "sort_key ?f (unassigned d a)") (auto simp: select_unassigned_variable_def)
qed

lemma backtrack_complete: "assignment_complete d a \<Longrightarrow> backtrack c d a = Inr (Some a)"
  by (simp add: backtrack.simps[of c d a])

lemma backtrack_step:
  "\<not> assignment_complete d a \<Longrightarrow> select_unassigned_variable c d a = Inr var \<Longrightarrow>
   order_domain_values c d var a = Inr vals \<Longrightarrow>
   backtrack c d a =
     first_result
       (\<lambda>val. case consistent c (AList.update var val a) of
                 Inl e \<Rightarrow> Inl e
               | Inr False \<Rightarrow> Inr None
               | Inr True \<Rightarrow> backtrack c d (AList.update var val a))
       vals"
  by (simp add: backtrack.simps[of c d a])

section \<open>The consistency check on maps\<close>

lemma entry_iff: "distinct (map fst a) \<Longrightarrow> (v, w) \<in> set a \<longleftrightarrow> map_of a v = Some w"
  by (auto dest: map_of_SomeD)

lemma word_reused_map:
  assumes "distinct (map fst a)"
  shows "word_reused a \<longleftrightarrow>
           (\<exists>v1 v2 w. v1 \<noteq> v2 \<and> map_of a v1 = Some w \<and> map_of a v2 = Some w)"
proof -
  have "word_reused a \<longleftrightarrow> (\<exists>v1 v2 w. v1 \<noteq> v2 \<and> (v1, w) \<in> set a \<and> (v2, w) \<in> set a)"
    unfolding word_reused_def list_ex_iff by auto
  then show ?thesis by (simp add: entry_iff[OF assms])
qed

lemma length_mismatch_map:
  assumes "distinct (map fst a)"
  shows "length_mismatch a \<longleftrightarrow> (\<exists>v w. map_of a v = Some w \<and> int (length w) \<noteq> var_length v)"
proof -
  have "length_mismatch a \<longleftrightarrow> (\<exists>v w. (v, w) \<in> set a \<and> int (length w) \<noteq> var_length v)"
    unfolding length_mismatch_def list_ex_iff by auto
  then show ?thesis by (simp add: entry_iff[OF assms])
qed

lemma overlap_conflict_map:
  "overlap_conflict c a \<longleftrightarrow>
     (\<exists>x y i j w1 w2. map_of (overlaps c) (x, y) = Some (Some (i, j)) \<and>
        map_of a x = Some w1 \<and> map_of a y = Some w2 \<and> \<not> agree_at i j w1 w2)"
proof
  assume "overlap_conflict c a"
  then show "\<exists>x y i j w1 w2. map_of (overlaps c) (x, y) = Some (Some (i, j)) \<and>
        map_of a x = Some w1 \<and> map_of a y = Some w2 \<and> \<not> agree_at i j w1 w2"
  proof -
    assume "overlap_conflict c a"
    then obtain x y where t: "(case map_of (overlaps c) (x, y) of
           Some (Some (i, j)) \<Rightarrow>
             (case map_of a x of
                None \<Rightarrow> False
              | Some w1 \<Rightarrow>
                  (case map_of a y of None \<Rightarrow> False | Some w2 \<Rightarrow> \<not> agree_at i j w1 w2))
         | _ \<Rightarrow> False)"
      unfolding overlap_conflict_def list_ex_iff by auto
    then obtain i j where ov: "map_of (overlaps c) (x, y) = Some (Some (i, j))"
      by (cases "map_of (overlaps c) (x, y)") (auto split: option.splits)
    with t obtain w1 where w1: "map_of a x = Some w1" by (cases "map_of a x") auto
    with t ov obtain w2 where w2: "map_of a y = Some w2" by (cases "map_of a y") auto
    with t ov w1 have "\<not> agree_at i j w1 w2" by simp
    with ov w1 w2 show ?thesis by blast
  qed
next
  assume "\<exists>x y i j w1 w2. map_of (overlaps c) (x, y) = Some (Some (i, j)) \<and>
        map_of a x = Some w1 \<and> map_of a y = Some w2 \<and> \<not> agree_at i j w1 w2"
  then obtain x y i j w1 w2 where h: "map_of (overlaps c) (x, y) = Some (Some (i, j))"
    "map_of a x = Some w1" "map_of a y = Some w2" "\<not> agree_at i j w1 w2" by blast
  from key_of_overlap[OF h(1)] h show "overlap_conflict c a"
    unfolding overlap_conflict_def list_ex_iff by (intro bexI[of _ "(x, y)"]) auto
qed

lemma consistent_mono:
  assumes rng: "offsets_in_range c" and da: "distinct (map fst a)" and dr: "distinct (map fst r)"
    and sub: "map_of a \<subseteq>\<^sub>m map_of r" and cr: "consistent c r = Inr True"
  shows "consistent c a = Inr True"
proof -
  have up: "map_of r v = Some w" if "map_of a v = Some w" for v w
    using sub that by (auto simp: map_le_def dom_def)
  from cr consistent_result[OF rng dr]
  have r: "\<not> word_reused r" "\<not> length_mismatch r" "\<not> overlap_conflict c r" by auto
  have "\<not> word_reused a"
    using r(1) up unfolding word_reused_map[OF da] word_reused_map[OF dr] by blast
  moreover have "\<not> length_mismatch a"
    using r(2) up unfolding length_mismatch_map[OF da] length_mismatch_map[OF dr] by blast
  moreover have "\<not> overlap_conflict c a"
    using r(3) up unfolding overlap_conflict_map by blast
  ultimately show ?thesis by (simp add: consistent_result[OF rng da])
qed

section \<open>The search is sound and complete\<close>

lemma map_of_update_le:
  "\<not> has_key a var \<Longrightarrow> map_of a \<subseteq>\<^sub>m map_of r \<Longrightarrow> map_of r var = Some w \<Longrightarrow>
   map_of (AList.update var w a) \<subseteq>\<^sub>m map_of r"
  by (auto simp: map_le_def update_conv' has_key_def dom_def)

lemma backtrack_correct:
  assumes wf: "overlaps_well_formed c" and rng: "offsets_in_range c"
    and len: "lengths_ok d" and keys: "set (variables c) \<subseteq> set (map fst d)"
  shows "distinct (map fst a) \<Longrightarrow> consistent c a = Inr True \<Longrightarrow>
         \<exists>res. backtrack c d a = Inr res \<and>
           (case res of
              Some r \<Rightarrow>
                distinct (map fst r) \<and> assignment_complete d r \<and> consistent c r = Inr True \<and>
                (\<forall>v w. map_of r v = Some w \<longrightarrow> map_of a v = Some w \<or> w \<in> set (dom_list d v))
            | None \<Rightarrow> \<not> (\<exists>r. completes d a r \<and> consistent c r = Inr True))"
proof (induction "length (unassigned d a)" arbitrary: a rule: less_induct)
  case less
  note da = less.prems(1) and ca = less.prems(2)
  show ?case
  proof (cases "assignment_complete d a")
    case True
    with da ca show ?thesis by (simp add: backtrack_complete)
  next
    case False
    from select_unassigned_variable_returns[OF False] obtain var
      where sel: "select_unassigned_variable c d a = Inr var" by blast
    from select_unassigned_variable_mem[OF sel]
    have var: "var \<in> set (map fst d)" "\<not> has_key a var" and un: "var \<in> set (unassigned d a)"
      by (simp_all add: unassigned_def)
    from var(1) obtain ws where ws: "map_of d var = Some ws"
      by (metis has_key_def has_key_iff not_None_eq)
    from order_domain_values_returns[OF wf rng len keys ws] obtain vals
      where ord: "order_domain_values c d var a = Inr vals" and vals: "set vals = set ws" by blast
    let ?body = "\<lambda>val. case consistent c (AList.update var val a) of
                 Inl e \<Rightarrow> Inl e
               | Inr False \<Rightarrow> Inr None
               | Inr True \<Rightarrow> backtrack c d (AList.update var val a)"
    note step = backtrack_step[OF False sel ord]
    have du: "distinct (map fst (AList.update var val a))" for val
      using da by (rule distinct_update)
    have ih: "\<exists>res. backtrack c d (AList.update var val a) = Inr res \<and>
           (case res of
              Some r \<Rightarrow>
                distinct (map fst r) \<and> assignment_complete d r \<and> consistent c r = Inr True \<and>
                (\<forall>v w. map_of r v = Some w \<longrightarrow>
                   map_of (AList.update var val a) v = Some w \<or> w \<in> set (dom_list d v))
            | None \<Rightarrow> \<not> (\<exists>r. completes d (AList.update var val a) r \<and> consistent c r = Inr True))"
      if "consistent c (AList.update var val a) = Inr True" for val
      using unassigned_update_less[OF un] du that by (intro less.hyps)
    have body: "\<exists>res. ?body val = Inr res" for val
    proof -
      from consistent_result[OF rng du[of val]] obtain b
        where b: "consistent c (AList.update var val a) = Inr b" by blast
      show ?thesis
      proof (cases b)
        case True
        with ih[of val] b show ?thesis by auto
      next
        case False
        with b show ?thesis by simp
      qed
    qed
    from first_result_returns[of vals ?body] body obtain res
      where res: "first_result ?body vals = Inr res" by blast
    show ?thesis
    proof (cases res)
      case None
      have "\<not> (\<exists>r. completes d a r \<and> consistent c r = Inr True)"
      proof
        assume "\<exists>r. completes d a r \<and> consistent c r = Inr True"
        then obtain r where r: "completes d a r" and cr: "consistent c r = Inr True" by blast
        from r var(1) obtain w where w: "map_of r var = Some w"
          by (auto simp: completes_def assignment_complete_def list_all_iff has_key_def)
        with r var(2) have "w \<in> set (dom_list d var)" by (auto simp: completes_def)
        with ws vals have wv: "w \<in> set vals" by (simp add: dom_list_Some)
        let ?a' = "AList.update var w a"
        have sub: "map_of ?a' \<subseteq>\<^sub>m map_of r"
          using r var(2) w by (intro map_of_update_le) (auto simp: completes_def)
        have dr: "distinct (map fst r)" using r by (simp add: completes_def)
        have ca': "consistent c ?a' = Inr True"
          by (rule consistent_mono[OF rng du dr sub cr])
        from first_result_None[OF res[unfolded None] wv] ca'
        have bt: "backtrack c d ?a' = Inr None" by simp
        have "completes d ?a' r"
          using r sub by (auto simp: completes_def has_key_update)
        with ih[OF ca'] bt cr show False by auto
      qed
      with res None step show ?thesis by simp
    next
      case (Some r)
      from first_result_Some[OF res[unfolded Some]] obtain val
        where val: "val \<in> set vals" and bv: "?body val = Inr (Some r)" by blast
      from bv have ca': "consistent c (AList.update var val a) = Inr True"
        and bt: "backtrack c d (AList.update var val a) = Inr (Some r)"
        by (auto split: sum.splits bool.splits)
      from ih[OF ca'] bt
      have p: "distinct (map fst r)" "assignment_complete d r" "consistent c r = Inr True"
        and q: "\<And>v w. map_of r v = Some w \<Longrightarrow>
                 map_of (AList.update var val a) v = Some w \<or> w \<in> set (dom_list d v)"
        by auto
      have "map_of a v = Some w \<or> w \<in> set (dom_list d v)" if "map_of r v = Some w" for v w
        using q[OF that] val vals ws
        by (cases "v = var") (auto simp: update_conv' dom_list_Some)
      with p res Some step show ?thesis by simp
    qed
  qed
qed

section \<open>solve\<close>

lemma map_of_init_domains:
  "map_of (init_domains c) v = (if v \<in> set (variables c) then Some (words c) else None)"
  by (induction "variables c" arbitrary: c) (auto simp: init_domains_def map_of_map_restrict restrict_map_def)

lemma keys_init_domains: "map fst (init_domains c) = variables c"
  by (simp add: init_domains_def comp_def)

lemma consistent_empty: "consistent c [] = Inr True"
proof -
  have "consistent_overlaps c [] ks = Inr True" for ks
    by (induction ks) (auto simp: has_key_def)
  then show ?thesis by (simp add: consistent_def)
qed

lemma solve_result:
  assumes wf: "overlaps_well_formed c" and rng: "offsets_in_range c"
  shows "\<exists>res. solve c = Inr res \<and>
           (case res of
              Some a \<Rightarrow> is_solution c a \<and> consistent c a = Inr True
            | None \<Rightarrow> \<not> (\<exists>r. is_solution c r))"
proof -
  let ?d1 = "enforce_node_consistency (init_domains c)"
  have keys1: "map fst ?d1 = variables c"
    by (simp add: keys_enforce_node_consistency keys_init_domains)
  have dom1: "dom_list ?d1 v = [w \<leftarrow> dom_list (init_domains c) v. int (length w) = var_length v]" for v
    by (rule dom_list_enforce_node_consistency)
  have len1: "lengths_ok ?d1" unfolding lengths_ok_iff dom1 by simp
  have sub1: "set (variables c) \<subseteq> set (map fst ?d1)" by (simp add: keys1)
  from ac3_loop_returns[OF wf rng len1 sub1, of "map fst (overlaps c)"]
  obtain ok d2 where run: "ac3 c None ?d1 = Inr (ok, d2)" by (auto simp: ac3_def)
  then have loop: "ac3_loop c (map fst (overlaps c)) ?d1 = Inr (ok, d2)" by (simp add: ac3_def)
  note res2 = ac3_loop_result[OF loop]
  from res2 keys1 have keys2: "map fst d2 = variables c" by simp
  from res2 have shrink: "set (dom_list d2 v) \<subseteq> set (dom_list ?d1 v)" for v by blast
  have len2: "lengths_ok d2" using len1 shrink unfolding lengths_ok_iff by blast
  have sub2: "set (variables c) \<subseteq> set (map fst d2)" by (simp add: keys2)
  have voc: "w \<in> set (words c) \<and> v \<in> set (variables c)" if "w \<in> set (dom_list d2 v)" for v w
  proof -
    from that shrink have "w \<in> set (dom_list (init_domains c) v)" by (auto simp: dom1)
    then show ?thesis
      by (cases "v \<in> set (variables c)") (auto simp: dom_list_def map_of_init_domains)
  qed
  from backtrack_correct[OF wf rng len2 sub2, of "[]"] consistent_empty
  obtain res where bt: "backtrack c d2 [] = Inr res"
    and post: "case res of
        Some r \<Rightarrow>
          distinct (map fst r) \<and> assignment_complete d2 r \<and> consistent c r = Inr True \<and>
          (\<forall>v w. map_of r v = Some w \<longrightarrow> map_of [] v = Some w \<or> w \<in> set (dom_list d2 v))
      | None \<Rightarrow> \<not> (\<exists>r. completes d2 [] r \<and> consistent c r = Inr True)"
    by auto
  have sv: "solve c = Inr res" using run bt by (simp add: solve_def)
  show ?thesis
  proof (cases res)
    case (Some a)
    with post have da: "distinct (map fst a)" and comp: "assignment_complete d2 a"
      and ca: "consistent c a = Inr True"
      and from_dom: "\<And>v w. map_of a v = Some w \<Longrightarrow> w \<in> set (dom_list d2 v)"
      by auto
    from comp have "set (variables c) \<subseteq> set (map fst a)"
      by (auto simp: assignment_complete_def list_all_iff keys2 has_key_iff)
    moreover have "set (map fst a) \<subseteq> set (variables c)"
    proof
      fix v assume "v \<in> set (map fst a)"
      then obtain w where "map_of a v = Some w"
        by (metis has_key_def has_key_iff not_None_eq)
      from voc[OF from_dom[OF this]] show "v \<in> set (variables c)" by simp
    qed
    moreover have "list_all (\<lambda>(v, w). w \<in> set (words c)) a"
      unfolding list_all_iff
    proof
      fix e assume e: "e \<in> set a"
      obtain v w where vw: "e = (v, w)" by (cases e)
      with e have "(v, w) \<in> set a" by simp
      then have "map_of a v = Some w" using entry_iff[OF da, of v w] by blast
      from voc[OF from_dom[OF this]] vw show "case e of (v, w) \<Rightarrow> w \<in> set (words c)" by simp
    qed
    moreover from ca consistent_result[OF rng da]
    have "\<not> word_reused a \<and> \<not> length_mismatch a \<and> \<not> overlap_conflict c a" by auto
    ultimately have "is_solution c a" using da by (simp add: is_solution_def)
    with sv Some ca show ?thesis by simp
  next
    case None
    have "\<not> (\<exists>r. is_solution c r)"
    proof
      assume "\<exists>r. is_solution c r"
      then obtain r where r: "is_solution c r" by blast
      then have dr: "distinct (map fst r)" and kr: "set (map fst r) = set (variables c)"
        and vr: "\<And>v w. map_of r v = Some w \<Longrightarrow> w \<in> set (words c)"
        and ok: "\<not> word_reused r" "\<not> length_mismatch r" "\<not> overlap_conflict c r"
        by (auto simp: is_solution_def list_all_iff dest: map_of_SomeD)
      have cr: "consistent c r = Inr True" using ok by (simp add: consistent_result[OF rng dr])
      have "kept_by c r ?d1"
        unfolding kept_by_def
      proof
        fix v assume v: "v \<in> set (variables c)"
        with kr obtain w where w: "map_of r v = Some w"
          by (metis has_key_def has_key_iff not_None_eq)
        with ok(2) have "int (length w) = var_length v"
          unfolding length_mismatch_map[OF dr] by blast
        moreover from v have "dom_list (init_domains c) v = words c"
          by (simp add: dom_list_def map_of_init_domains)
        ultimately have "w \<in> set (dom_list ?d1 v)"
          using vr[OF w] by (simp only: dom1) simp
        with w show "\<exists>w. map_of r v = Some w \<and> w \<in> set (dom_list ?d1 v)" by blast
      qed
      with res2 wf ok(3) have kept: "kept_by c r d2" by blast
      have "completes d2 [] r"
        unfolding completes_def
      proof (intro conjI allI impI)
        show "distinct (map fst r)" by (rule dr)
        show "map_of [] \<subseteq>\<^sub>m map_of r" by simp
        show "assignment_complete d2 r"
          using kr by (simp add: assignment_complete_def list_all_iff keys2 has_key_iff)
      next
        fix v w assume w: "map_of r v = Some w"
        then have "v \<in> set (variables c)"
          using kr by (metis has_key_def has_key_iff option.distinct(1))
        with kept w show "w \<in> set (dom_list d2 v)" by (auto simp: kept_by_def)
      qed
      with post None cr show False by auto
    qed
    with sv None show ?thesis by simp
  qed
qed

text \<open>
  Claim C1. On a puzzle whose overlap table is well formed and whose offsets lie inside
  the slots: if some assignment gives every slot a word of the vocabulary with the right
  length, no word twice and agreement at every overlap, then \<open>solve\<close> (node
  consistency, AC-3, backtracking from the empty assignment) returns such an assignment,
  every slot is assigned and \<open>consistent\<close> accepts it; if there is none, \<open>solve\<close>
  returns \<open>None\<close>. In both cases it returns: no error is raised and the search ends.
\<close>

theorem solve_sound_and_complete:
  assumes "overlaps_well_formed c" and "offsets_in_range c"
  shows "if (\<exists>r. is_solution c r)
         then (\<exists>a. solve c = Inr (Some a) \<and> list_all (has_key a) (variables c) \<and>
                   consistent c a = Inr True \<and> is_solution c a)
         else solve c = Inr None"
proof -
  from solve_result[OF assms] obtain res where sv: "solve c = Inr res"
    and post: "case res of
                 Some a \<Rightarrow> is_solution c a \<and> consistent c a = Inr True
               | None \<Rightarrow> \<not> (\<exists>r. is_solution c r)"
    by blast
  show ?thesis
  proof (cases res)
    case None
    with sv post show ?thesis by simp
  next
    case (Some a)
    with post have s: "is_solution c a" and ca: "consistent c a = Inr True" by simp_all
    from s have "list_all (has_key a) (variables c)"
      by (simp add: is_solution_def list_all_iff has_key_iff)
    with sv Some s ca show ?thesis by auto
  qed
qed

theorem solve_sound_and_complete_witness:
  "solve puzzle_cross = Inr (Some [(slot_h, ''CAT''), (slot_v, ''COW'')]) \<and>
   is_solution puzzle_cross [(slot_h, ''CAT''), (slot_v, ''COW'')] \<and>
   consistent puzzle_cross [(slot_h, ''CAT''), (slot_v, ''COW'')] = Inr True \<and>
   solve puzzle_pair = Inr None \<and> \<not> (\<exists>r. is_solution puzzle_pair r)"
proof -
  have wf: "overlaps_well_formed puzzle_cross" "offsets_in_range puzzle_cross" by code_simp+
  have wf2: "overlaps_well_formed puzzle_pair" "offsets_in_range puzzle_pair" by code_simp+
  have run: "solve puzzle_cross = Inr (Some [(slot_h, ''CAT''), (slot_v, ''COW'')])"
    by code_simp
  have run2: "solve puzzle_pair = Inr None" by code_simp
  from solve_sound_and_complete[OF wf] run
  have "is_solution puzzle_cross [(slot_h, ''CAT''), (slot_v, ''COW'')] \<and>
        consistent puzzle_cross [(slot_h, ''CAT''), (slot_v, ''COW'')] = Inr True"
    by (auto split: if_splits)
  moreover from solve_sound_and_complete[OF wf2] run2
  have "\<not> (\<exists>r. is_solution puzzle_pair r)"
    by (auto split: if_splits)
  ultimately show ?thesis using run run2 by blast
qed

section \<open>The search leaves the store as it was\<close>

lemma extends_store_refl: "extends_store s s"
  by (simp add: extends_store_def)

lemma take_length_le: "take n xs = ys \<Longrightarrow> length ys = n \<Longrightarrow> n \<le> length xs"
  by (auto simp: min_def split: if_splits)

lemma extends_store_le: "extends_store s s' \<Longrightarrow> length (st_heap s) \<le> length (st_heap s')"
  unfolding extends_store_def by (blast intro: take_length_le)

lemma extends_store_trans:
  assumes "extends_store s s1" and "extends_store s1 s2"
  shows "extends_store s s2"
proof -
  from assms(1) have le: "length (st_heap s) \<le> length (st_heap s1)"
    by (rule extends_store_le)
  from assms have "take (length (st_heap s)) (take (length (st_heap s1)) (st_heap s2)) = st_heap s"
    by (simp add: extends_store_def)
  with le have "take (length (st_heap s)) (st_heap s2) = st_heap s"
    by (simp add: min_absorb1)
  with assms show ?thesis by (simp add: extends_store_def)
qed

lemma extends_store_nth:
  assumes "extends_store s s'" and "k < length (st_heap s)"
  shows "st_heap s' ! k = st_heap s ! k" and "k < length (st_heap s')"
proof -
  from assms(1) have t: "take (length (st_heap s)) (st_heap s') = st_heap s"
    by (simp add: extends_store_def)
  from assms(2) have "st_heap s ! k = take (length (st_heap s)) (st_heap s') ! k"
    by (simp add: t)
  also have "\<dots> = st_heap s' ! k" using assms(2) by simp
  finally show "st_heap s' ! k = st_heap s ! k" by simp
  from assms(1) have "length (st_heap s) \<le> length (st_heap s')"
    by (rule extends_store_le)
  with assms(2) show "k < length (st_heap s')" by simp
qed

lemma same_result_extends:
  "extends_store s s1 \<Longrightarrow> same_result s1 pure out \<Longrightarrow> same_result s pure out"
  unfolding same_result_def
  by (cases pure) (auto intro: extends_store_trans)

lemma backtrack_values_refines:
  assumes ih: "\<And>ref' s'. ref' < length (st_heap s') \<Longrightarrow>
                 length (unassigned (st_domains s') (st_heap s' ! ref')) < n \<Longrightarrow>
                 same_result s' (backtrack c (st_domains s') (st_heap s' ! ref'))
                   (backtrack_st n c ref' s')"
    and var: "var \<in> set (unassigned d a)" and n: "length (unassigned d a) \<le> n"
  shows "ref < length (st_heap s) \<Longrightarrow> st_domains s = d \<Longrightarrow> st_heap s ! ref = a \<Longrightarrow>
         same_result s
           (first_result
              (\<lambda>val. case consistent c (AList.update var val a) of
                        Inl e \<Rightarrow> Inl e
                      | Inr False \<Rightarrow> Inr None
                      | Inr True \<Rightarrow> backtrack c d (AList.update var val a))
              vals)
           (backtrack_values n c ref var vals s)"
proof (induction vals arbitrary: s)
  case Nil
  then show ?case by (simp add: same_result_def extends_store_refl)
next
  case (Cons val rest)
  let ?a' = "AList.update var val a"
  let ?new = "length (st_heap s)"
  define s1 where "s1 = s\<lparr>st_heap := st_heap s @ [st_heap s ! ref]\<rparr>"
  define s2 where "s2 = s1\<lparr>st_heap :=
      (st_heap s1)[?new := AList.update var val (st_heap s1 ! ?new)]\<rparr>"
  have cb: "extends_store s s2" "length (st_heap s) < length (st_heap s2)"
    "st_heap s2 ! length (st_heap s) = AList.update var val (st_heap s ! ref)"
    by (simp_all add: s1_def s2_def extends_store_def)
  from cb(3) Cons.prems(3) have new: "st_heap s2 ! ?new = ?a'" by simp
  from cb(1) have d2: "st_domains s2 = d" using Cons.prems(2) by (simp add: extends_store_def)
  note ref2 = extends_store_nth[OF cb(1) Cons.prems(1)]
  have unfold: "backtrack_values n c ref var (val # rest) s =
      (case consistent c ?a' of
           Inl e \<Rightarrow> Some (Inl e)
         | Inr False \<Rightarrow> backtrack_values n c ref var rest s2
         | Inr True \<Rightarrow>
             (case backtrack_st n c ?new s2 of
                None \<Rightarrow> None
              | Some (Inl e) \<Rightarrow> Some (Inl e)
              | Some (Inr (Some r, s3)) \<Rightarrow> Some (Inr (Some r, s3))
              | Some (Inr (None, s3)) \<Rightarrow> backtrack_values n c ref var rest s3))"
    unfolding s2_def s1_def Cons.prems(3)[symmetric] by (simp add: Let_def)
  note backtrack_values.simps [simp del]
  have rest2: "same_result s2 (first_result
              (\<lambda>val. case consistent c (AList.update var val a) of
                        Inl e \<Rightarrow> Inl e
                      | Inr False \<Rightarrow> Inr None
                      | Inr True \<Rightarrow> backtrack c d (AList.update var val a))
              rest) (backtrack_values n c ref var rest s')"
    if "extends_store s2 s'" for s'
  proof -
    from that cb(1) have e: "extends_store s s'" by (rule extends_store_trans[rotated])
    note r = extends_store_nth[OF e Cons.prems(1)]
    have "same_result s' (first_result
              (\<lambda>val. case consistent c (AList.update var val a) of
                        Inl e \<Rightarrow> Inl e
                      | Inr False \<Rightarrow> Inr None
                      | Inr True \<Rightarrow> backtrack c d (AList.update var val a))
              rest) (backtrack_values n c ref var rest s')"
      using r e Cons.prems(2,3) by (intro Cons.IH) (simp_all add: extends_store_def)
    with that show ?thesis by (rule same_result_extends)
  qed
  show ?case
  proof (cases "consistent c ?a'")
    case (Inl e)
    then show ?thesis by (simp add: unfold same_result_def)
  next
    case (Inr b)
    show ?thesis
    proof (cases b)
      case False
      from rest2[OF extends_store_refl] cb(1)
      have "same_result s (first_result
              (\<lambda>val. case consistent c (AList.update var val a) of
                        Inl e \<Rightarrow> Inl e
                      | Inr False \<Rightarrow> Inr None
                      | Inr True \<Rightarrow> backtrack c d (AList.update var val a))
              rest) (backtrack_values n c ref var rest s2)"
        by (rule same_result_extends[rotated])
      with Inr False show ?thesis by (simp add: unfold)
    next
      case True
      have "length (unassigned d ?a') < n"
        using unassigned_update_less[OF var, of val] n by simp
      with ih[of ?new s2] cb(2) new d2
      have call: "same_result s2 (backtrack c d ?a') (backtrack_st n c ?new s2)" by simp
      show ?thesis
      proof (cases "backtrack c d ?a'")
        case (Inl e)
        with call Inr True show ?thesis by (simp add: unfold same_result_def)
      next
        case res: (Inr res)
        with call obtain res' s3 where out: "backtrack_st n c ?new s2 = Some (Inr (res', s3))"
          and e3: "extends_store s2 s3"
          and rel: "case res' of None \<Rightarrow> res = None
                    | Some r \<Rightarrow> r < length (st_heap s3) \<and> res = Some (st_heap s3 ! r)"
          by (auto simp: same_result_def)
        show ?thesis
        proof (cases res')
          case None
          with rel have "res = None" by simp
          moreover from rest2[OF e3] cb(1)
          have "same_result s (first_result
              (\<lambda>val. case consistent c (AList.update var val a) of
                        Inl e \<Rightarrow> Inl e
                      | Inr False \<Rightarrow> Inr None
                      | Inr True \<Rightarrow> backtrack c d (AList.update var val a))
              rest) (backtrack_values n c ref var rest s3)"
            by (rule same_result_extends[rotated])
          ultimately show ?thesis using Inr True res out None by (simp add: unfold)
        next
          case (Some r)
          with rel have "r < length (st_heap s3)" "res = Some (st_heap s3 ! r)" by simp_all
          moreover from cb(1) e3 have "extends_store s s3" by (rule extends_store_trans)
          ultimately show ?thesis
            using Inr True res out Some by (simp add: unfold same_result_def)
        qed
      qed
    qed
  qed
qed

lemma backtrack_st_refines:
  "ref < length (st_heap s) \<Longrightarrow> length (unassigned (st_domains s) (st_heap s ! ref)) < n \<Longrightarrow>
   same_result s (backtrack c (st_domains s) (st_heap s ! ref)) (backtrack_st n c ref s)"
proof (induction n arbitrary: ref s)
  case 0
  then show ?case by simp
next
  case (Suc n)
  let ?d = "st_domains s" and ?a = "st_heap s ! ref"
  show ?case
  proof (cases "assignment_complete ?d ?a")
    case True
    with Suc.prems(1) show ?thesis
      by (simp add: backtrack_complete same_result_def extends_store_refl)
  next
    case False
    show ?thesis
    proof (cases "select_unassigned_variable c ?d ?a")
      case (Inl e)
      with False show ?thesis
        by (simp add: backtrack.simps[of c ?d ?a] same_result_def)
    next
      case (Inr var)
      note var = select_unassigned_variable_mem[OF Inr]
      show ?thesis
      proof (cases "order_domain_values c ?d var ?a")
        case (Inl e)
        with False Inr show ?thesis
          by (simp add: backtrack.simps[of c ?d ?a] same_result_def)
      next
        case vals: (Inr vals)
        from Suc.prems(2) have n: "length (unassigned ?d ?a) \<le> n" by simp
        from backtrack_values_refines[of n c var ?d ?a ref s vals, OF Suc.IH var n Suc.prems(1)]
        show ?thesis
          using False Inr vals by (simp add: backtrack_step[OF False Inr vals])
      qed
    qed
  qed
qed

text \<open>
  Claim C10. A call of \<open>backtrack\<close> on an assignment object of the store, with a
  depth bound above the number of unassigned slots, returns; when it returns a solution
  or \<open>None\<close>, the Domain Store is the one before the call and every assignment
  object that existed before the call, the caller's among them, holds the bindings it
  held: the extensions were made on new objects. The returned object holds the result
  of the search on values.
\<close>

theorem backtrack_leaves_store:
  assumes "ref < length (st_heap s)"
    and "length (unassigned (st_domains s) (st_heap s ! ref)) < n"
  shows "\<exists>out. backtrack_st n c ref s = Some out \<and>
           (case out of
              Inl e \<Rightarrow> backtrack c (st_domains s) (st_heap s ! ref) = Inl e
            | Inr (res, s') \<Rightarrow>
                st_domains s' = st_domains s \<and>
                take (length (st_heap s)) (st_heap s') = st_heap s \<and>
                st_heap s' ! ref = st_heap s ! ref \<and>
                (case res of
                   None \<Rightarrow> backtrack c (st_domains s) (st_heap s ! ref) = Inr None
                 | Some r \<Rightarrow>
                     r < length (st_heap s') \<and>
                     backtrack c (st_domains s) (st_heap s ! ref) = Inr (Some (st_heap s' ! r))))"
proof (cases "backtrack c (st_domains s) (st_heap s ! ref)")
  case (Inl e)
  with backtrack_st_refines[OF assms, of c] show ?thesis by (simp add: same_result_def)
next
  case (Inr res)
  with backtrack_st_refines[OF assms, of c] obtain res' s'
    where out: "backtrack_st n c ref s = Some (Inr (res', s'))" and e: "extends_store s s'"
      and rel: "case res' of None \<Rightarrow> res = None
                | Some r \<Rightarrow> r < length (st_heap s') \<and> res = Some (st_heap s' ! r)"
    by (auto simp: same_result_def)
  from e have "st_domains s' = st_domains s" "take (length (st_heap s)) (st_heap s') = st_heap s"
    by (simp_all add: extends_store_def)
  moreover note extends_store_nth(1)[OF e assms(1)]
  ultimately show ?thesis using out rel Inr by (cases res') simp_all
qed

theorem backtrack_leaves_store_witness:
  "(\<exists>r s'. backtrack_st 3 puzzle_cross 0
              \<lparr>st_domains = [(slot_h, [''CAT'', ''DOG'']), (slot_v, [''CAT'', ''COW''])],
               st_heap = [[]]\<rparr> = Some (Inr (Some r, s')) \<and>
           st_domains s' = [(slot_h, [''CAT'', ''DOG'']), (slot_v, [''CAT'', ''COW''])] \<and>
           st_heap s' ! 0 = [] \<and>
           st_heap s' ! r = [(slot_h, ''CAT''), (slot_v, ''COW'')]) \<and>
   (\<exists>s'. backtrack_st 3 puzzle_pair 0
              \<lparr>st_domains = [(slot_h, [''CAT'', ''DOG'']), (slot_v, [''CAT'', ''DOG''])],
               st_heap = [[]]\<rparr> = Some (Inr (None, s')) \<and>
         st_domains s' = [(slot_h, [''CAT'', ''DOG'']), (slot_v, [''CAT'', ''DOG''])] \<and>
         st_heap s' ! 0 = [])"
proof -
  let ?d = "[(slot_h, [''CAT'', ''DOG'']), (slot_v, [''CAT'', ''COW''])]"
  let ?s = "\<lparr>st_domains = ?d, st_heap = [[]]\<rparr>"
  let ?e = "[(slot_h, [''CAT'', ''DOG'']), (slot_v, [''CAT'', ''DOG''])]"
  let ?t = "\<lparr>st_domains = ?e, st_heap = [[]]\<rparr>"
  have ref: "0 < length (st_heap ?s)" "0 < length (st_heap ?t)" by simp_all
  have fuel: "length (unassigned (st_domains ?s) (st_heap ?s ! 0)) < 3"
    "length (unassigned (st_domains ?t) (st_heap ?t ! 0)) < 3"
    by (simp_all add: unassigned_def has_key_def)
  have pure1: "backtrack puzzle_cross (st_domains ?s) (st_heap ?s ! 0)
                 = Inr (Some [(slot_h, ''CAT''), (slot_v, ''COW'')])"
    by code_simp
  have pure2: "backtrack puzzle_pair (st_domains ?t) (st_heap ?t ! 0) = Inr None"
    by code_simp
  from backtrack_leaves_store[OF ref(1) fuel(1), of puzzle_cross]
  obtain out where out: "backtrack_st 3 puzzle_cross 0 ?s = Some out"
    and post: "case out of
              Inl e \<Rightarrow> backtrack puzzle_cross (st_domains ?s) (st_heap ?s ! 0) = Inl e
            | Inr (res, s') \<Rightarrow>
                st_domains s' = st_domains ?s \<and>
                take (length (st_heap ?s)) (st_heap s') = st_heap ?s \<and>
                st_heap s' ! 0 = st_heap ?s ! 0 \<and>
                (case res of
                   None \<Rightarrow> backtrack puzzle_cross (st_domains ?s) (st_heap ?s ! 0) = Inr None
                 | Some r \<Rightarrow>
                     r < length (st_heap s') \<and>
                     backtrack puzzle_cross (st_domains ?s) (st_heap ?s ! 0)
                       = Inr (Some (st_heap s' ! r)))"
    by blast
  from post pure1 obtain r s' where "out = Inr (Some r, s')" "st_domains s' = ?d"
    "st_heap s' ! 0 = []" "st_heap s' ! r = [(slot_h, ''CAT''), (slot_v, ''COW'')]"
    by (cases out; cases "fst (projr out)") (auto split: prod.splits option.splits)
  with out have first: "\<exists>r s'. backtrack_st 3 puzzle_cross 0 ?s = Some (Inr (Some r, s')) \<and>
      st_domains s' = ?d \<and> st_heap s' ! 0 = [] \<and>
      st_heap s' ! r = [(slot_h, ''CAT''), (slot_v, ''COW'')]"
    by blast
  from backtrack_leaves_store[OF ref(2) fuel(2), of puzzle_pair]
  obtain out2 where out2: "backtrack_st 3 puzzle_pair 0 ?t = Some out2"
    and post2: "case out2 of
              Inl e \<Rightarrow> backtrack puzzle_pair (st_domains ?t) (st_heap ?t ! 0) = Inl e
            | Inr (res, s') \<Rightarrow>
                st_domains s' = st_domains ?t \<and>
                take (length (st_heap ?t)) (st_heap s') = st_heap ?t \<and>
                st_heap s' ! 0 = st_heap ?t ! 0 \<and>
                (case res of
                   None \<Rightarrow> backtrack puzzle_pair (st_domains ?t) (st_heap ?t ! 0) = Inr None
                 | Some r \<Rightarrow>
                     r < length (st_heap s') \<and>
                     backtrack puzzle_pair (st_domains ?t) (st_heap ?t ! 0)
                       = Inr (Some (st_heap s' ! r)))"
    by blast
  from post2 pure2 obtain s2 where "out2 = Inr (None, s2)" "st_domains s2 = ?e"
    "st_heap s2 ! 0 = []"
    by (cases out2; cases "fst (projr out2)") (auto split: prod.splits option.splits)
  with out2 have "\<exists>s'. backtrack_st 3 puzzle_pair 0 ?t = Some (Inr (None, s')) \<and>
      st_domains s' = ?e \<and> st_heap s' ! 0 = []"
    by blast
  with first show ?thesis by blast
qed

end
